theory Spec2Isabelle
  imports Main "HOL-Library.Multiset" "HOL-Library.Sublist"
begin

text \<open>
  A model of \<open>scrape_wb.py\<close>: the scraper reads a forest of categories from a remote
  menu, walks it with one concurrent branch per node, writes one row per node, and for
  every leaf with lookup parameters fetches the filters of the leaf and writes one row per
  item of the category group. The model is the sequence of events the scraper causes,
  together with the exception it ends with, if any. The walk is given twice: as a function
  that runs the branches one after the other, each to its end, and as a step relation
  that runs them in any order the event loop may choose and cuts the run short when an
  exception reaches \<open>asyncio.run\<close>.
\<close>

section \<open>Python values\<close>

text \<open>
  A Python \<open>str\<close> is a sequence of Unicode code points; the group label the scraper
  compares with is Cyrillic, so a string is a list of code points.
\<close>

type_synonym pystr = "nat list"

definition ustr :: "string \<Rightarrow> pystr" where
  "ustr s = map of_char s"

text \<open>
  What \<open>resp.json()\<close> returns: \<open>None\<close>, \<open>bool\<close>, \<open>int\<close>, \<open>float\<close>, \<open>str\<close>,
  \<open>list\<close> or \<open>dict\<close>. A \<open>dict\<close> is an association list read with \<open>map_of\<close>: of
  two entries with one key the first is the one the dict holds. A float is only ever
  passed through; it is kept as numerator and denominator.
\<close>

datatype json =
    JNull
  | JBool bool
  | JInt int
  | JFloat int int
  | JStr pystr
  | JList "json list"
  | JObj "(pystr \<times> json) list"

text \<open>
  The exceptions of the run: \<open>AttributeError\<close> (\<open>.get\<close> on a value that is no
  \<open>dict\<close>), \<open>TypeError\<close> (iterating a value that is not iterable), \<open>ValueError\<close>
  and \<open>IllegalCharacterError\<close> (the sheet writer on a title or a cell it does not
  take) and whatever \<open>client.get\<close>, \<open>resp.json()\<close> or \<open>Category(**item)\<close> raise, all
  of them subclasses of \<open>Exception\<close>.
\<close>

datatype exn = AttributeError | TypeError | ValueError | IllegalCharacterError | Raised pystr

definition py_get :: "json \<Rightarrow> pystr \<Rightarrow> json \<Rightarrow> exn + json" where
  \<comment> \<open>\<open>x.get(key, default)\<close>\<close>
  "py_get x k dflt =
     (case x of
        JObj kvs \<Rightarrow> Inr (case map_of kvs k of Some v \<Rightarrow> v | None \<Rightarrow> dflt)
      | _ \<Rightarrow> Inl AttributeError)"

definition py_iter :: "json \<Rightarrow> exn + json list" where
  \<comment> \<open>\<open>for x in v\<close>: a list gives its elements, a dict its keys, a str its characters\<close>
  "py_iter v =
     (case v of
        JList xs \<Rightarrow> Inr xs
      | JObj kvs \<Rightarrow> Inr (map (\<lambda>kv. JStr (fst kv)) kvs)
      | JStr s \<Rightarrow> Inr (map (\<lambda>c. JStr [c]) s)
      | _ \<Rightarrow> Inl TypeError)"

section \<open>The data model\<close>

datatype category =
  Category (cat_id: int) (cat_name: pystr) (shard: "pystr option") (query: "pystr option")
    (url: "pystr option") (childs: "category list option")

definition truthy :: "'a list option \<Rightarrow> bool" where
  \<comment> \<open>the truth value of an \<open>Optional\<close> list or str: neither \<open>None\<close> nor empty\<close>
  "truthy v = (case v of None \<Rightarrow> False | Some xs \<Rightarrow> xs \<noteq> [])"

definition elems :: "'a list option \<Rightarrow> 'a list" where
  \<comment> \<open>what \<open>for sub in cat.childs\<close> ranges over once \<open>cat.childs\<close> is truthy\<close>
  "elems v = (case v of None \<Rightarrow> [] | Some xs \<Rightarrow> xs)"

text \<open>The arguments of one call \<open>self.excel.write(sheet_name, item_id, name, depth, parent)\<close>.\<close>

record flat_record =
  sheet_name :: pystr
  item_id :: json
  name :: json
  depth :: int
  parent :: "int option"

text \<open>
  What the scraper does to the outside, in the order it does it: a row the sheet writer
  has taken, a request sent, the semaphore taken and given back, a line printed by
  \<open>safe_api_call\<close>, the workbook saved, the client closed. Saving and closing are
  taken to succeed.
\<close>

datatype event =
    Write flat_record
  | Get pystr
  | Acquire
  | Release
  | Print string exn
  | Save
  | AClose

section \<open>The sheet writer\<close>

text \<open>
  \<open>ExcelSaver.write\<close> looks the sheet of the group up, creating it with
  \<open>create_sheet(title=name[:31])\<close> when the name is new, and appends the row
  \<open>[item_id, name, depth, parent or 0]\<close>. Both are calls into the spreadsheet library,
  and both may raise: the first on a title, the second on a cell the library does not
  take. A sheet whose creation raised is not entered in \<open>self.sheets\<close>, so the creation
  is tried, and raises, again for every later row of that group, and a sheet once
  created is not created again: whether a call of \<open>write\<close> raises depends on its
  arguments alone. The library is not part of the program; its two calls are parameters,
  each giving the exception it raises, if any.
\<close>

type_synonym writer = "flat_record \<Rightarrow> exn option"

definition excel_write :: "(pystr \<Rightarrow> exn option) \<Rightarrow> (json list \<Rightarrow> exn option) \<Rightarrow> writer" where
  "excel_write create_sheet append_row row =
     (case create_sheet (take 31 (sheet_name row)) of
        Some e \<Rightarrow> Some e
      | None \<Rightarrow>
          append_row [item_id row, name row, JInt (depth row),
                  JInt (case parent row of None \<Rightarrow> 0 | Some i \<Rightarrow> i)])"

section \<open>Constants\<close>

definition MAIN_MENU_URL :: pystr where
  "MAIN_MENU_URL = ustr ''https://static-basket-01.wbbasket.ru/vol0/data/main-menu-by-ru-v2.json''"

definition fmt :: "pystr option \<Rightarrow> pystr" where
  \<comment> \<open>how \<open>str.format\<close> renders an \<open>Optional[str]\<close>\<close>
  "fmt v = (case v of None \<Rightarrow> ustr ''None'' | Some s \<Rightarrow> s)"

definition FILTER_API :: "pystr option \<Rightarrow> pystr option \<Rightarrow> pystr" where
  "FILTER_API sh q =
     ustr ''https://catalog.wb.ru/catalog/'' @ fmt sh @ ustr ''/v4/filters?appType=1&''
       @ fmt q @ ustr ''&curr=rub&dest=-59202''"

definition category_label :: pystr where
  \<comment> \<open>the code points of the Cyrillic word for "category"\<close>
  "category_label = [1050, 1072, 1090, 1077, 1075, 1086, 1088, 1080, 1103]"

section \<open>The failure wrapper and the semaphore\<close>

text \<open>
  A coroutine body is the events it causes and how it ends: \<open>Inl e\<close> when it raises
  \<open>e\<close>, \<open>Inr v\<close> when it returns \<open>v\<close>.
\<close>

type_synonym 'a outcome = "event list \<times> (exn + 'a)"

definition safe_api_call :: "string \<Rightarrow> 'a outcome \<Rightarrow> event list \<times> 'a option" where
  "safe_api_call fname body =
     (case body of
        (evs, Inr v) \<Rightarrow> (evs, Some v)
      | (evs, Inl e) \<Rightarrow> (evs @ [Print fname e], None))"

definition with_semaphore :: "'a outcome \<Rightarrow> 'a outcome" where
  \<comment> \<open>\<open>async with self.semaphore:\<close> run without interruption\<close>
  "with_semaphore body = (Acquire # fst body @ [Release], snd body)"

section \<open>Fetching the facets of one leaf\<close>

fun write_items :: "writer \<Rightarrow> pystr \<Rightarrow> int \<Rightarrow> json list \<Rightarrow> unit outcome" where
  "write_items wr s pid [] = ([], Inr ())"
| "write_items wr s pid (item # items) =
     (case py_get item (ustr ''id'') (JInt 0) of
        Inl e \<Rightarrow> ([], Inl e)
      | Inr i \<Rightarrow>
          (case py_get item (ustr ''name'') (JStr (ustr ''Unnamed'')) of
             Inl e \<Rightarrow> ([], Inl e)
           | Inr n \<Rightarrow>
               (case wr \<lparr>sheet_name = s, item_id = i, name = n, depth = 99,
                         parent = Some pid\<rparr> of
                  Some e \<Rightarrow> ([], Inl e)
                | None \<Rightarrow>
                    (let rest = write_items wr s pid items
                     in (Write \<lparr>sheet_name = s, item_id = i, name = n, depth = 99,
                                parent = Some pid\<rparr> # fst rest, snd rest)))))"

fun process_groups :: "writer \<Rightarrow> pystr \<Rightarrow> int \<Rightarrow> json list \<Rightarrow> unit outcome" where
  "process_groups wr s pid [] = ([], Inr ())"
| "process_groups wr s pid (grp # grps) =
     (case py_get grp (ustr ''name'') JNull of
        Inl e \<Rightarrow> ([], Inl e)
      | Inr n \<Rightarrow>
          if n = JStr category_label then
            (case py_get grp (ustr ''items'') JNull of
               Inl e \<Rightarrow> ([], Inl e)
             | Inr (JList items) \<Rightarrow>
                 (case write_items wr s pid items of
                    (evs, Inl e) \<Rightarrow> (evs, Inl e)
                  | (evs, Inr _) \<Rightarrow>
                      (let rest = process_groups wr s pid grps
                       in (evs @ fst rest, snd rest)))
             | Inr _ \<Rightarrow> process_groups wr s pid grps)
          else process_groups wr s pid grps)"

definition after_response ::
  "writer \<Rightarrow> (pystr \<Rightarrow> exn + json) \<Rightarrow> category \<Rightarrow> pystr \<Rightarrow> unit outcome" where
  \<comment> \<open>the body of \<open>_fetch_items\<close> from the moment \<open>client.get\<close> resumes\<close>
  "after_response wr R cat s =
     (case R (FILTER_API (shard cat) (query cat)) of
        Inl e \<Rightarrow> ([], Inl e)
      | Inr j \<Rightarrow>
          (case py_get j (ustr ''data'') (JObj []) of
             Inl e \<Rightarrow> ([], Inl e)
           | Inr data \<Rightarrow>
               (case py_get data (ustr ''filters'') (JList []) of
                  Inl e \<Rightarrow> ([], Inl e)
                | Inr raw_filters \<Rightarrow>
                    (case py_iter raw_filters of
                       Inl e \<Rightarrow> ([], Inl e)
                     | Inr grps \<Rightarrow> process_groups wr s (cat_id cat) grps))))"

definition fetch_items_body ::
  "writer \<Rightarrow> (pystr \<Rightarrow> exn + json) \<Rightarrow> category \<Rightarrow> pystr \<Rightarrow> unit outcome" where
  "fetch_items_body wr R cat s =
     with_semaphore
       (Get (FILTER_API (shard cat) (query cat)) # fst (after_response wr R cat s),
        snd (after_response wr R cat s))"

definition fetch_items ::
  "writer \<Rightarrow> (pystr \<Rightarrow> exn + json) \<Rightarrow> category \<Rightarrow> pystr \<Rightarrow> event list" where
  "fetch_items wr R cat s = fst (safe_api_call ''_fetch_items'' (fetch_items_body wr R cat s))"

section \<open>The walk, one branch after the other\<close>

text \<open>
  \<open>_recurse\<close> and \<open>_process_all\<close> with every awaited call run to its end before the
  next begins: the children in order, each subtree before the next sibling. A branch is
  the events it causes and the exception it raises, if any. The write of the node's own
  row is not guarded: when it raises, the branch ends there. \<open>asyncio.gather\<close> starts
  every branch; it passes on the first exception a branch raises and does not stop the
  other branches, each of which is run to its end here.
\<close>

type_synonym branch = "event list \<times> exn option"

fun first_raised :: "exn option list \<Rightarrow> exn option" where
  "first_raised [] = None"
| "first_raised (None # xs) = first_raised xs"
| "first_raised (Some e # xs) = Some e"

definition gather :: "branch list \<Rightarrow> branch" where
  "gather branches = (concat (map fst branches), first_raised (map snd branches))"

definition emit :: "event \<Rightarrow> branch \<Rightarrow> branch" where
  \<comment> \<open>an event, and then the rest of the branch\<close>
  "emit ev rest = (ev # fst rest, snd rest)"

definition node_record :: "category \<Rightarrow> int \<Rightarrow> int option \<Rightarrow> pystr \<Rightarrow> flat_record" where
  \<comment> \<open>the row \<open>_recurse\<close> writes first: \<open>(sheet_name, cat.id, cat.name, depth, parent_id)\<close>\<close>
  "node_record cat d p s =
     \<lparr>sheet_name = s, item_id = JInt (cat_id cat), name = JStr (cat_name cat), depth = d,
      parent = p\<rparr>"

function recurse ::
  "writer \<Rightarrow> (pystr \<Rightarrow> exn + json) \<Rightarrow> category \<Rightarrow> int \<Rightarrow> int option \<Rightarrow> pystr \<Rightarrow> branch" where
  "recurse wr R cat d p s =
     (case wr (node_record cat d p s) of
        Some e \<Rightarrow> ([], Some e)
      | None \<Rightarrow>
          emit (Write (node_record cat d p s))
            (if truthy (childs cat) then
               gather (map (\<lambda>sub. recurse wr R sub (d + 1) (Some (cat_id cat)) s)
                         (elems (childs cat)))
             else if truthy (shard cat) \<and> truthy (query cat) then (fetch_items wr R cat s, None)
             else ([], None)))"
  by pat_completeness auto
termination
proof (relation "measure (\<lambda>(wr, R, cat, d, p, s). size cat)")
  fix R :: "pystr \<Rightarrow> exn + json" and wr :: writer and cat sub :: category and d :: int
    and p :: "int option" and s :: pystr
  assume sub: "sub \<in> set (elems (childs cat))"
  have "size sub < size cat"
  proof (cases cat)
    case (Category i n sh q u ch)
    show ?thesis
    proof (cases ch)
      case None
      with Category sub show ?thesis by (simp add: elems_def)
    next
      case (Some cs)
      with Category sub have "sub \<in> set cs" by (simp add: elems_def)
      then have "size sub \<le> size_list size cs"
        by (rule size_list_estimation') simp
      with Category Some show ?thesis by simp
    qed
  qed
  then show "((wr, R, sub, d + 1, Some (cat_id cat), s), (wr, R, cat, d, p, s))
      \<in> measure (\<lambda>(wr, R, cat, d, p, s). size cat)"
    by simp
qed simp

declare recurse.simps [simp del]

definition process_all :: "writer \<Rightarrow> (pystr \<Rightarrow> exn + json) \<Rightarrow> category list \<Rightarrow> branch" where
  "process_all wr R categories =
     gather (map (\<lambda>cat. recurse wr R cat 1 None (cat_name cat)) categories)"

section \<open>The walk, branches interleaved\<close>

text \<open>
  \<open>asyncio.gather\<close> runs the branches as tasks of one event loop. A task runs without
  interruption until it awaits; here that is at \<open>gather\<close> (the children become
  tasks), at the semaphore (when no permit is left) and at \<open>client.get\<close>. A
  configuration holds the calls of \<open>_recurse\<close> not yet started, the calls of
  \<open>_fetch_items\<close> waiting for a permit, those holding a permit with their request out, the
  permits left, the events so far, and the first exception a branch has raised. Which
  task the loop resumes next is not fixed.

  An exception raised by the write of a node's own row ends that task and travels up
  through the gathers, \<open>_process_all\<close> and \<open>scrape\<close> to \<open>asyncio.run\<close>, which cancels
  every task that is still pending. Until it arrives the other tasks go on; how far they
  get depends on the loop, so the cancellation may come at any moment after the first
  raise. A task cancelled before it started causes nothing. A fetch cancelled in flight
  leaves \<open>async with\<close> and gives its permit back; \<open>CancelledError\<close> is no
  \<open>Exception\<close>, so \<open>safe_api_call\<close> lets it pass and prints nothing.
\<close>

record config =
  ready :: "(category \<times> int \<times> int option \<times> pystr) list"
  waiting :: "(category \<times> pystr) list"
  inflight :: "(category \<times> pystr) list"
  permits :: nat
  trace :: "event list"
  raised :: "exn option"

definition resume_fetch_items ::
  "writer \<Rightarrow> (pystr \<Rightarrow> exn + json) \<Rightarrow> category \<Rightarrow> pystr \<Rightarrow> event list" where
  \<comment> \<open>\<open>_fetch_items\<close> from the response on: the rows, the release, the diagnostic\<close>
  "resume_fetch_items wr R cat s =
     fst (safe_api_call ''_fetch_items''
            (fst (after_response wr R cat s) @ [Release], snd (after_response wr R cat s)))"

definition final :: "config \<Rightarrow> bool" where
  "final c = (ready c = [] \<and> waiting c = [] \<and> inflight c = [])"

inductive step :: "writer \<Rightarrow> (pystr \<Rightarrow> exn + json) \<Rightarrow> config \<Rightarrow> config \<Rightarrow> bool"
  for wr :: writer and R :: "pystr \<Rightarrow> exn + json" where
  start_raise:
    "ready c = xs @ (cat, d, p, s) # ys \<Longrightarrow> wr (node_record cat d p s) = Some e \<Longrightarrow>
     step wr R c (c\<lparr>ready := xs @ ys, raised := first_raised [raised c, Some e]\<rparr>)"
| start_childs:
    "ready c = xs @ (cat, d, p, s) # ys \<Longrightarrow> wr (node_record cat d p s) = None \<Longrightarrow>
     truthy (childs cat) \<Longrightarrow>
     step wr R c
       (c\<lparr>ready := xs @ map (\<lambda>sub. (sub, d + 1, Some (cat_id cat), s)) (elems (childs cat)) @ ys,
          trace := trace c @ [Write (node_record cat d p s)]\<rparr>)"
| start_fetch:
    "ready c = xs @ (cat, d, p, s) # ys \<Longrightarrow> wr (node_record cat d p s) = None \<Longrightarrow>
     \<not> truthy (childs cat) \<Longrightarrow> truthy (shard cat) \<and> truthy (query cat) \<Longrightarrow>
     step wr R c
       (c\<lparr>ready := xs @ ys, waiting := waiting c @ [(cat, s)],
          trace := trace c @ [Write (node_record cat d p s)]\<rparr>)"
| start_leaf:
    "ready c = xs @ (cat, d, p, s) # ys \<Longrightarrow> wr (node_record cat d p s) = None \<Longrightarrow>
     \<not> truthy (childs cat) \<Longrightarrow> \<not> (truthy (shard cat) \<and> truthy (query cat)) \<Longrightarrow>
     step wr R c (c\<lparr>ready := xs @ ys, trace := trace c @ [Write (node_record cat d p s)]\<rparr>)"
| acquire:
    "waiting c = xs @ (cat, s) # ys \<Longrightarrow> 0 < permits c \<Longrightarrow>
     step wr R c
       (c\<lparr>waiting := xs @ ys, inflight := inflight c @ [(cat, s)], permits := permits c - 1,
          trace := trace c @ [Acquire, Get (FILTER_API (shard cat) (query cat))]\<rparr>)"
| respond:
    "inflight c = xs @ (cat, s) # ys \<Longrightarrow>
     step wr R c
       (c\<lparr>inflight := xs @ ys, permits := permits c + 1,
          trace := trace c @ resume_fetch_items wr R cat s\<rparr>)"
| cancel:
    "raised c = Some e \<Longrightarrow> \<not> final c \<Longrightarrow>
     step wr R c
       (c\<lparr>ready := [], waiting := [], inflight := [],
          permits := permits c + length (inflight c),
          trace := trace c @ replicate (length (inflight c)) Release\<rparr>)"

definition init :: "category list \<Rightarrow> config" where
  \<comment> \<open>\<open>_process_all\<close>: one task per root, \<open>asyncio.Semaphore(30)\<close>\<close>
  "init categories =
     \<lparr>ready = map (\<lambda>cat. (cat, 1, None, cat_name cat)) categories, waiting = [], inflight = [],
      permits = 30, trace = [], raised = None\<rparr>"

text \<open>A run of the walk: its events, and the exception \<open>_process_all\<close> raises, if any.\<close>

inductive walk_run ::
  "writer \<Rightarrow> (pystr \<Rightarrow> exn + json) \<Rightarrow> category list \<Rightarrow> event list \<Rightarrow> exn option \<Rightarrow> bool"
  for wr :: writer and R :: "pystr \<Rightarrow> exn + json" and categories :: "category list" where
  "(step wr R)\<^sup>*\<^sup>* (init categories) c \<Longrightarrow> final c \<Longrightarrow>
   walk_run wr R categories (trace c) (raised c)"

section \<open>The whole run\<close>

text \<open>
  \<open>scrape\<close> fetches the menu, walks it when it is neither \<open>None\<close> nor empty, saves
  the workbook and closes the client. When the walk raises, the exception leaves
  \<open>scrape\<close> before the workbook is saved and the client closed. The \<open>benchmark\<close>
  wrapper around it only measures and prints the elapsed time and is left out.
\<close>

definition fetch_main_menu :: "exn + category list \<Rightarrow> event list \<times> category list option" where
  \<comment> \<open>the argument is how the body ends: the request, \<open>resp.json()\<close> and the
      validation of every item, or the exception one of them raises\<close>
  "fetch_main_menu root = safe_api_call ''_fetch_main_menu'' ([Get MAIN_MENU_URL], root)"

inductive scrape ::
  "writer \<Rightarrow> (pystr \<Rightarrow> exn + json) \<Rightarrow> exn + category list \<Rightarrow> event list \<Rightarrow> exn option \<Rightarrow> bool"
  for wr :: writer and R :: "pystr \<Rightarrow> exn + json" and root :: "exn + category list" where
  no_catalog:
    "\<not> truthy (snd (fetch_main_menu root)) \<Longrightarrow>
     scrape wr R root (fst (fetch_main_menu root) @ [Save, AClose]) None"
| catalog:
    "truthy (snd (fetch_main_menu root)) \<Longrightarrow>
     walk_run wr R (elems (snd (fetch_main_menu root))) tr None \<Longrightarrow>
     scrape wr R root (fst (fetch_main_menu root) @ tr @ [Save, AClose]) None"
| catalog_raise:
    "truthy (snd (fetch_main_menu root)) \<Longrightarrow>
     walk_run wr R (elems (snd (fetch_main_menu root))) tr (Some e) \<Longrightarrow>
     scrape wr R root (fst (fetch_main_menu root) @ tr) (Some e)"

text \<open>The rows and the requests among the events of a run.\<close>

definition records :: "event list \<Rightarrow> flat_record list" where
  "records tr = concat (map (\<lambda>ev. case ev of Write w \<Rightarrow> [w] | _ \<Rightarrow> []) tr)"

definition requests :: "event list \<Rightarrow> pystr list" where
  "requests tr = concat (map (\<lambda>ev. case ev of Get u \<Rightarrow> [u] | _ \<Rightarrow> []) tr)"

section \<open>The forest, as the claims speak of it\<close>

text \<open>
  A node of the forest is given by the path that leads to it: the root first, the node
  itself last, its ancestors in between. The children of a node are what
  \<open>for sub in cat.childs\<close> ranges over.
\<close>

function paths :: "category \<Rightarrow> category list list" where
  "paths cat = [cat] # map ((#) cat) (concat (map paths (elems (childs cat))))"
  by pat_completeness auto
termination
proof (relation "measure size")
  fix cat sub :: category
  assume sub: "sub \<in> set (elems (childs cat))"
  have "size sub < size cat"
  proof (cases cat)
    case (Category i n sh q u ch)
    show ?thesis
    proof (cases ch)
      case None
      with Category sub show ?thesis by (simp add: elems_def)
    next
      case (Some cs)
      with Category sub have "sub \<in> set cs" by (simp add: elems_def)
      then have "size sub \<le> size_list size cs"
        by (rule size_list_estimation') simp
      with Category Some show ?thesis by simp
    qed
  qed
  then show "(sub, cat) \<in> measure size" by simp
qed simp

declare paths.simps [simp del]

definition forest_paths :: "category list \<Rightarrow> category list list" where
  "forest_paths categories = concat (map paths categories)"

definition path_record :: "category list \<Rightarrow> flat_record" where
  \<comment> \<open>the record a node is due: the group of its root, one more than the number of its
      ancestors as depth, the id of the last ancestor as parent\<close>
  "path_record pth =
     \<lparr>sheet_name = cat_name (hd pth), item_id = JInt (cat_id (last pth)),
      name = JStr (cat_name (last pth)), depth = 1 + int (length (butlast pth)),
      parent = (if butlast pth = [] then None else Some (cat_id (last (butlast pth))))\<rparr>"

definition fetch_due :: "category \<Rightarrow> bool" where
  \<comment> \<open>a leaf whose \<open>shard\<close> and \<open>query\<close> are both non-empty strings\<close>
  "fetch_due cat = (\<not> truthy (childs cat) \<and> truthy (shard cat) \<and> truthy (query cat))"

definition path_facets ::
  "writer \<Rightarrow> (pystr \<Rightarrow> exn + json) \<Rightarrow> category list \<Rightarrow> event list" where
  \<comment> \<open>what the facet fetch of the node at the end of a path adds to the run\<close>
  "path_facets wr R pth =
     (if fetch_due (last pth) then fetch_items wr R (last pth) (cat_name (hd pth)) else [])"

section \<open>The response, as the claims speak of it\<close>

definition is_obj :: "json \<Rightarrow> bool" where
  "is_obj v = (case v of JObj _ \<Rightarrow> True | _ \<Rightarrow> False)"

definition field :: "json \<Rightarrow> string \<Rightarrow> json option" where
  \<comment> \<open>the value under a key of an object, if it has the key\<close>
  "field v k = (case v of JObj kvs \<Rightarrow> map_of kvs (ustr k) | _ \<Rightarrow> None)"

definition labelled :: "json \<Rightarrow> bool" where
  \<comment> \<open>a group whose name is the category label\<close>
  "labelled grp = (field grp ''name'' = Some (JStr category_label))"

definition items_of :: "json \<Rightarrow> json list" where
  \<comment> \<open>the items of a group, when they are a list\<close>
  "items_of grp = (case field grp ''items'' of Some (JList items) \<Rightarrow> items | _ \<Rightarrow> [])"

definition category_items :: "json list \<Rightarrow> json list" where
  "category_items grps = concat (map items_of (filter labelled grps))"

definition response_groups :: "json \<Rightarrow> json list" where
  \<comment> \<open>the list under \<open>data.filters\<close> of a response, when there is one\<close>
  "response_groups j =
     (case field j ''data'' of
        Some d \<Rightarrow> (case field d ''filters'' of Some (JList grps) \<Rightarrow> grps | _ \<Rightarrow> [])
      | None \<Rightarrow> [])"

definition well_shaped :: "json \<Rightarrow> bool" where
  \<comment> \<open>the shape \<open>{data: {filters: [{name, items: [{id, name}]}]}}\<close>, any key optional:
      objects where objects are due, and the items of a labelled group, when a list, all
      objects\<close>
  "well_shaped j =
     (is_obj j \<and>
      (case field j ''data'' of
         None \<Rightarrow> True
       | Some d \<Rightarrow>
           is_obj d \<and>
           (case field d ''filters'' of
              None \<Rightarrow> True
            | Some (JList grps) \<Rightarrow>
                list_all (\<lambda>grp. is_obj grp \<and> (labelled grp \<longrightarrow> list_all is_obj (items_of grp)))
                  grps
            | Some _ \<Rightarrow> False)))"

definition facet_record :: "pystr \<Rightarrow> int \<Rightarrow> json \<Rightarrow> flat_record" where
  \<comment> \<open>the record a facet is due: depth 99, the leaf as parent, 0 and "Unnamed" for a
      key the item lacks\<close>
  "facet_record s pid item =
     \<lparr>sheet_name = s,
      item_id = (case field item ''id'' of Some v \<Rightarrow> v | None \<Rightarrow> JInt 0),
      name = (case field item ''name'' of Some v \<Rightarrow> v | None \<Rightarrow> JStr (ustr ''Unnamed'')),
      depth = 99, parent = Some pid\<rparr>"

definition item_ok :: "writer \<Rightarrow> pystr \<Rightarrow> int \<Rightarrow> json \<Rightarrow> bool" where
  \<comment> \<open>an item that is an object and whose row the writer takes\<close>
  "item_ok wr s pid item = (is_obj item \<and> wr (facet_record s pid item) = None)"

definition no_category_items :: "json \<Rightarrow> bool" where
  \<comment> \<open>a response object with no \<open>data\<close> key, or whose data has no \<open>filters\<close> key, or
      whose groups are objects none of which carries the label together with a list of
      items\<close>
  "no_category_items j =
     (case j of
        JObj kvs \<Rightarrow>
          (case map_of kvs (ustr ''data'') of
             None \<Rightarrow> True
           | Some (JObj d) \<Rightarrow>
               (case map_of d (ustr ''filters'') of
                  None \<Rightarrow> True
                | Some (JList grps) \<Rightarrow>
                    list_all (\<lambda>grp. is_obj grp \<and>
                      (labelled grp \<longrightarrow>
                         (case field grp ''items'' of Some (JList _) \<Rightarrow> False | _ \<Rightarrow> True))) grps
                | Some _ \<Rightarrow> False)
           | Some _ \<Rightarrow> False)
      | _ \<Rightarrow> False)"

section \<open>Measures on configurations\<close>

definition pending :: "writer \<Rightarrow> (pystr \<Rightarrow> exn + json) \<Rightarrow> config \<Rightarrow> event multiset" where
  \<comment> \<open>the events the tasks of a configuration cause when none is cancelled\<close>
  "pending wr R c =
     sum_list (map (\<lambda>(cat, d, p, s). mset (fst (recurse wr R cat d p s))) (ready c))
     + sum_list (map (\<lambda>(cat, s). mset (fetch_items wr R cat s)) (waiting c))
     + sum_list (map (\<lambda>(cat, s). mset (resume_fetch_items wr R cat s)) (inflight c))"

definition will_raise :: "writer \<Rightarrow> (pystr \<Rightarrow> exn + json) \<Rightarrow> config \<Rightarrow> bool" where
  \<comment> \<open>a branch has raised, or one not yet started raises when it runs\<close>
  "will_raise wr R c =
     (raised c \<noteq> None \<or> (\<exists>(cat, d, p, s)\<in>set (ready c). snd (recurse wr R cat d p s) \<noteq> None))"

definition idle :: "config \<Rightarrow> bool" where
  \<comment> \<open>no fetch waiting or in flight, and a permit at hand\<close>
  "idle c = (waiting c = [] \<and> inflight c = [] \<and> 0 < permits c)"

definition weight :: "config \<Rightarrow> nat" where
  \<comment> \<open>a bound on the steps a configuration can still take\<close>
  "weight c =
     sum_list (map (\<lambda>(cat, d, p, s). 3 * size cat + 3) (ready c))
     + 2 * length (waiting c) + length (inflight c)"

section \<open>A small catalogue\<close>

text \<open>
  Two roots: \<open>A\<close> with one child \<open>A1\<close>, and the leaf \<open>B\<close> with shard \<open>s1\<close> and
  query \<open>q1\<close>. \<open>E\<close> is a leaf whose shard is the empty string. \<open>C\<close> is a root
  with the child \<open>C1\<close>, whose child \<open>C2\<close> is a leaf with shard \<open>s2\<close> and query
  \<open>q2\<close>.
\<close>

definition cat_A1 :: category where
  "cat_A1 = Category 2 (ustr ''A1'') None None None None"

definition cat_A :: category where
  "cat_A = Category 1 (ustr ''A'') None None None (Some [cat_A1])"

definition cat_B :: category where
  "cat_B = Category 3 (ustr ''B'') (Some (ustr ''s1'')) (Some (ustr ''q1'')) None None"

definition cat_E :: category where
  "cat_E = Category 4 (ustr ''E'') (Some []) (Some (ustr ''q1'')) None None"

definition facet_F1 :: json where
  "facet_F1 = JObj [(ustr ''id'', JInt 10), (ustr ''name'', JStr (ustr ''F1''))]"

definition filters_response :: "json list \<Rightarrow> json" where
  "filters_response grps = JObj [(ustr ''data'', JObj [(ustr ''filters'', JList grps)])]"

definition category_group :: "json \<Rightarrow> json" where
  "category_group items = JObj [(ustr ''name'', JStr category_label), (ustr ''items'', items)]"

definition response_ok :: json where
  "response_ok = filters_response [category_group (JList [facet_F1])]"

definition remote_ok :: "pystr \<Rightarrow> exn + json" where
  \<comment> \<open>every request is answered with the one facet \<open>F1\<close>\<close>
  "remote_ok u = Inr response_ok"

definition remote_one_down :: "pystr \<Rightarrow> exn + json" where
  \<comment> \<open>the request for shard \<open>s1\<close> and query \<open>q1\<close> fails, every other is answered\<close>
  "remote_one_down u =
     (if u = FILTER_API (Some (ustr ''s1'')) (Some (ustr ''q1''))
      then Inl (Raised (ustr ''timeout'')) else Inr response_ok)"

definition response_partial :: json where
  \<comment> \<open>the items of the category group are \<open>F1\<close> and then the number 5\<close>
  "response_partial = filters_response [category_group (JList [facet_F1, JInt 5])]"

definition remote_partial :: "pystr \<Rightarrow> exn + json" where
  "remote_partial u = Inr response_partial"



definition remote_of :: "json \<Rightarrow> pystr \<Rightarrow> exn + json" where
  \<comment> \<open>every request is answered with the given value\<close>
  "remote_of j u = Inr j"

definition cat_S :: category where
  \<comment> \<open>a root whose name has a slash, with the child \<open>A1\<close>\<close>
  "cat_S = Category 8 (ustr ''A/B'') None None None (Some [cat_A1])"

definition response_list_id :: json where
  \<comment> \<open>the first item of the category group has a list as id, the second is \<open>F1\<close>\<close>
  "response_list_id =
     filters_response
       [category_group
          (JList [JObj [(ustr ''id'', JList [JInt 1]), (ustr ''name'', JStr (ustr ''x''))],
                  facet_F1])]"

definition remote_list_id :: "pystr \<Rightarrow> exn + json" where
  "remote_list_id u = Inr response_list_id"

definition cat_C2 :: category where
  "cat_C2 = Category 7 (ustr ''C2'') (Some (ustr ''s2'')) (Some (ustr ''q2'')) None None"

definition cat_C1 :: category where
  "cat_C1 = Category 6 (ustr ''C1'') None None None (Some [cat_C2])"

definition cat_C :: category where
  "cat_C = Category 5 (ustr ''C'') None None None (Some [cat_C1])"

text \<open>
  The spreadsheet library the program writes with: it refuses a title that has one of the
  characters \<open>\ * ? : / [ ]\<close> or more than 31 characters, and a cell whose value is a
  list or a dict, or a string with a control character; the cells of a row are set from
  left to right.
\<close>

definition illegal_title :: "nat list" where
  \<comment> \<open>the code points of \<open>\ * ? : / [ ]\<close>\<close>
  "illegal_title = [92, 42, 63, 58, 47, 91, 93]"

definition xlsx_create_sheet :: "pystr \<Rightarrow> exn option" where
  "xlsx_create_sheet title =
     (if 31 < length title \<or> (\<exists>c\<in>set title. c \<in> set illegal_title) then Some ValueError
      else None)"

definition illegal_char :: "nat \<Rightarrow> bool" where
  "illegal_char c = (c \<le> 8 \<or> c = 11 \<or> c = 12 \<or> (14 \<le> c \<and> c \<le> 31))"

definition xlsx_cell :: "json \<Rightarrow> exn option" where
  "xlsx_cell v =
     (case v of
        JList _ \<Rightarrow> Some ValueError
      | JObj _ \<Rightarrow> Some ValueError
      | JStr str \<Rightarrow> if \<exists>c\<in>set str. illegal_char c then Some IllegalCharacterError else None
      | _ \<Rightarrow> None)"

definition xlsx_append :: "json list \<Rightarrow> exn option" where
  "xlsx_append cells = first_raised (map xlsx_cell cells)"

definition xlsx :: writer where
  "xlsx = excel_write xlsx_create_sheet xlsx_append"

text \<open>
  One way the loop may run the two roots against \<open>remote_ok\<close>: \<open>B\<close> starts first,
  then \<open>A\<close>, the request of \<open>B\<close> goes out, \<open>A1\<close> runs while it is in flight, and the
  response comes last. \<open>example_config\<close> is the moment the request is in flight.
\<close>

definition example_trace :: "event list" where
  "example_trace =
     [Write (node_record cat_B 1 None (ustr ''B'')),
      Write (node_record cat_A 1 None (ustr ''A'')),
      Acquire,
      Get (FILTER_API (shard cat_B) (query cat_B)),
      Write (node_record cat_A1 2 (Some 1) (ustr ''A'')),
      Write (facet_record (ustr ''B'') 3 facet_F1),
      Release]"

definition example_config :: config where
  "example_config =
     \<lparr>ready = [(cat_A1, 2, Some 1, ustr ''A'')], waiting = [], inflight = [(cat_B, ustr ''B'')],
      permits = 29, trace = take 4 example_trace, raised = None\<rparr>"



section \<open>Facts about strings, events and lists\<close>

lemma ustr_eq_iff [simp]: "ustr s = ustr t \<longleftrightarrow> s = t"
  by (simp add: ustr_def inj_map_eq_map inj_on_def)

lemma ustr_Nil_iff [simp]: "ustr s = [] \<longleftrightarrow> s = []"
  by (simp add: ustr_def)

lemma records_simps [simp]:
  "records [] = []"
  "records (Write w # evs) = w # records evs"
  "records (Get u # evs) = records evs"
  "records (Acquire # evs) = records evs"
  "records (Release # evs) = records evs"
  "records (Print f e # evs) = records evs"
  "records (Save # evs) = records evs"
  "records (AClose # evs) = records evs"
  "records (xs @ ys) = records xs @ records ys"
  by (simp_all add: records_def)

lemma requests_simps [simp]:
  "requests [] = []"
  "requests (Write w # evs) = requests evs"
  "requests (Get u # evs) = u # requests evs"
  "requests (Acquire # evs) = requests evs"
  "requests (Release # evs) = requests evs"
  "requests (Print f e # evs) = requests evs"
  "requests (Save # evs) = requests evs"
  "requests (AClose # evs) = requests evs"
  "requests (xs @ ys) = requests xs @ requests ys"
  by (simp_all add: requests_def)

lemma records_concat_map: "records (concat (map g xs)) = concat (map (\<lambda>x. records (g x)) xs)"
  by (induction xs) simp_all

lemma requests_concat_map: "requests (concat (map g xs)) = concat (map (\<lambda>x. requests (g x)) xs)"
  by (induction xs) simp_all

lemma records_map_Write [simp]: "records (map Write ws) = ws"
  by (induction ws) simp_all

lemma requests_map_Write [simp]: "requests (map Write ws) = []"
  by (induction ws) simp_all

lemma count_list_map_Write [simp]:
  "count_list (map Write ws) Acquire = 0" "count_list (map Write ws) Release = 0"
  by (induction ws) simp_all

lemma mset_concat_map: "mset (concat (map f xs)) = sum_list (map (\<lambda>x. mset (f x)) xs)"
  by (induction xs) simp_all

lemma mset_concat_map_cong:
  assumes "mset xs = mset ys"
  shows "mset (concat (map f xs)) = mset (concat (map f ys))"
proof -
  have "mset (concat (map f zs)) = sum_mset (image_mset (\<lambda>x. mset (f x)) (mset zs))" for zs
    by (induction zs) simp_all
  with assms show ?thesis by simp
qed

lemma mset_records_cong: "mset xs = mset ys \<Longrightarrow> mset (records xs) = mset (records ys)"
  unfolding records_def by (rule mset_concat_map_cong)

lemma mset_requests_cong: "mset xs = mset ys \<Longrightarrow> mset (requests xs) = mset (requests ys)"
  unfolding requests_def by (rule mset_concat_map_cong)

lemma mset_concat_Cons:
  "mset (concat (map (\<lambda>x. a x # b x) xs))
   = image_mset a (mset xs) + sum_list (map (\<lambda>x. mset (b x)) xs)"
  by (induction xs) simp_all

lemma concat_map_concat:
  "concat (map f (concat xss)) = concat (map (\<lambda>xs. concat (map f xs)) xss)"
  by (induction xss) simp_all


section \<open>Facts about the fetch\<close>

lemma py_get_obj: "py_get (JObj kvs) k dflt = Inr (case map_of kvs k of Some v \<Rightarrow> v | None \<Rightarrow> dflt)"
  by (simp add: py_get_def)

lemma py_get_not_obj: "\<not> is_obj v \<Longrightarrow> py_get v k dflt = Inl AttributeError"
  by (cases v) (simp_all add: py_get_def is_obj_def)

lemma write_items_obj:
  "write_items wr s pid (JObj kvs # items) =
     (case wr (facet_record s pid (JObj kvs)) of
        Some e \<Rightarrow> ([], Inl e)
      | None \<Rightarrow>
          (Write (facet_record s pid (JObj kvs)) # fst (write_items wr s pid items),
           snd (write_items wr s pid items)))"
  by (simp add: py_get_obj facet_record_def field_def Let_def split: option.splits)

lemma write_items_not_obj:
  "\<not> is_obj item \<Longrightarrow> write_items wr s pid (item # items) = ([], Inl AttributeError)"
  by (simp add: py_get_not_obj)

lemma write_items_fst:
  "fst (write_items wr s pid items) =
     map (\<lambda>i. Write (facet_record s pid i)) (takeWhile (item_ok wr s pid) items)"
proof (induction items)
  case Nil
  show ?case by simp
next
  case (Cons item items)
  show ?case
  proof (cases "is_obj item")
    case True
    then obtain kvs where "item = JObj kvs" by (cases item) (simp_all add: is_obj_def)
    with Cons show ?thesis
      by (simp add: write_items_obj item_ok_def is_obj_def del: write_items.simps
          split: option.splits)
  next
    case False
    then show ?thesis
      by (simp add: write_items_not_obj item_ok_def del: write_items.simps)
  qed
qed

lemma write_items_snd:
  "(snd (write_items wr s pid items) = Inr ()) = list_all (item_ok wr s pid) items"
proof (induction items)
  case Nil
  show ?case by simp
next
  case (Cons item items)
  show ?case
  proof (cases "is_obj item")
    case True
    then obtain kvs where "item = JObj kvs" by (cases item) (simp_all add: is_obj_def)
    with Cons show ?thesis
      by (simp add: write_items_obj item_ok_def is_obj_def del: write_items.simps
          split: option.splits)
  next
    case False
    then show ?thesis
      by (simp add: write_items_not_obj item_ok_def del: write_items.simps)
  qed
qed

lemma process_groups_obj:
  "process_groups wr s pid (JObj kvs # grps) =
     (if labelled (JObj kvs) then
        (case map_of kvs (ustr ''items'') of
           Some (JList items) \<Rightarrow>
             if list_all (item_ok wr s pid) items
             then (map (\<lambda>i. Write (facet_record s pid i)) items
                     @ fst (process_groups wr s pid grps),
                   snd (process_groups wr s pid grps))
             else (map (\<lambda>i. Write (facet_record s pid i)) (takeWhile (item_ok wr s pid) items),
                   snd (write_items wr s pid items))
         | _ \<Rightarrow> process_groups wr s pid grps)
      else process_groups wr s pid grps)"
proof -
  have w: "write_items wr s pid items =
      (map (\<lambda>i. Write (facet_record s pid i)) (takeWhile (item_ok wr s pid) items),
       snd (write_items wr s pid items))" for items
    using write_items_fst [of wr s pid items] by (metis prod.collapse)
  have t: "list_all (item_ok wr s pid) items \<Longrightarrow> takeWhile (item_ok wr s pid) items = items"
    for items
    by (simp add: list_all_iff)
  have u: "snd (write_items wr s pid items) = Inl e \<Longrightarrow> \<not> list_all (item_ok wr s pid) items"
    for items e
    using write_items_snd [of wr s pid items] by auto
  have v: "snd (write_items wr s pid items) = Inr x \<Longrightarrow> list_all (item_ok wr s pid) items"
    for items x
    using write_items_snd [of wr s pid items] by auto
  show ?thesis
  proof (cases "labelled (JObj kvs)")
    case False
    then show ?thesis
      by (simp add: py_get_obj labelled_def field_def split: option.splits)
  next
    case True
    then have name: "py_get (JObj kvs) (ustr ''name'') JNull = Inr (JStr category_label)"
      by (simp add: py_get_obj labelled_def field_def)
    show ?thesis
    proof (cases "\<exists>items. map_of kvs (ustr ''items'') = Some (JList items)")
      case False
      with True name show ?thesis
        by (auto simp: py_get_obj split: option.splits json.splits)
    next
      case True
      then obtain items where items: "map_of kvs (ustr ''items'') = Some (JList items)" by blast
      obtain evs r where wi: "write_items wr s pid items = (evs, r)"
        by (cases "write_items wr s pid items")
      with write_items_fst [of wr s pid items]
      have evs: "evs = map (\<lambda>i. Write (facet_record s pid i)) (takeWhile (item_ok wr s pid) items)"
        by simp
      show ?thesis
      proof (cases r)
        case (Inl e)
        with wi u [of items e] have "\<not> list_all (item_ok wr s pid) items" by simp
        with \<open>labelled (JObj kvs)\<close> name items wi evs Inl show ?thesis
          by (simp add: py_get_obj)
      next
        case (Inr x)
        with wi v [of items x] have all: "list_all (item_ok wr s pid) items" by simp
        with \<open>labelled (JObj kvs)\<close> name items wi evs Inr t [OF all] show ?thesis
          by (simp add: py_get_obj Let_def)
      qed
    qed
  qed
qed

lemma process_groups_not_obj:
  "\<not> is_obj grp \<Longrightarrow> process_groups wr s pid (grp # grps) = ([], Inl AttributeError)"
  by (simp add: py_get_not_obj)

lemma category_items_Cons:
  "category_items (grp # grps) = (if labelled grp then items_of grp else []) @ category_items grps"
  by (simp add: category_items_def)

lemma process_groups_prefix:
  "prefix (fst (process_groups wr s pid grps))
     (map (\<lambda>i. Write (facet_record s pid i)) (category_items grps))"
proof (induction grps)
  case Nil
  show ?case by simp
next
  case (Cons grp grps)
  show ?case
  proof (cases "is_obj grp")
    case False
    then show ?thesis by (simp del: process_groups.simps add: process_groups_not_obj)
  next
    case True
    then obtain kvs where grp: "grp = JObj kvs" by (cases grp) (simp_all add: is_obj_def)
    have "prefix (takeWhile P items) (items @ rest)" for P and items rest :: "json list"
      by (metis prefix_append prefixI takeWhile_dropWhile_id)
    then have p: "prefix (map f (takeWhile P items)) (map f items @ rest)"
      for f :: "json \<Rightarrow> event" and P items rest
      by (metis append_Nil2 map_mono_prefix prefix_append map_append)
    from Cons show ?thesis
      unfolding grp process_groups_obj category_items_Cons
      by (auto simp: items_of_def field_def p split: option.splits json.splits)
  qed
qed

lemma process_groups_ok:
  assumes "list_all (\<lambda>grp. is_obj grp \<and> (labelled grp \<longrightarrow> list_all is_obj (items_of grp))) grps"
    and "\<forall>i\<in>set (category_items grps). wr (facet_record s pid i) = None"
  shows "process_groups wr s pid grps =
     (map (\<lambda>i. Write (facet_record s pid i)) (category_items grps), Inr ())"
  using assms
proof (induction grps)
  case Nil
  show ?case by (simp add: category_items_def)
next
  case (Cons grp grps)
  then obtain kvs where grp: "grp = JObj kvs" by (cases grp) (simp_all add: is_obj_def)
  have ok: "list_all (item_ok wr s pid) (items_of grp)" if "labelled grp"
    using that Cons.prems by (auto simp: list_all_iff item_ok_def category_items_Cons)
  from Cons ok show ?case
    unfolding grp process_groups_obj category_items_Cons
    by (auto simp: items_of_def field_def split: option.splits json.splits)
qed

lemma process_groups_strs:
  "fst (process_groups wr s pid (map (\<lambda>x. JStr (f x)) xs)) = []"
  by (cases xs) (simp_all add: py_get_def)

lemma after_response_raised:
  "R (FILTER_API (shard cat) (query cat)) = Inl e \<Longrightarrow> after_response wr R cat s = ([], Inl e)"
  by (simp add: after_response_def)

lemma after_response_prefix:
  "prefix (fst (after_response wr R cat s))
     (case R (FILTER_API (shard cat) (query cat)) of
        Inl e \<Rightarrow> []
      | Inr j \<Rightarrow> map (\<lambda>i. Write (facet_record s (cat_id cat) i)) (category_items (response_groups j)))"
proof (cases "R (FILTER_API (shard cat) (query cat))")
  case (Inl e)
  then show ?thesis by (simp add: after_response_def)
next
  case (Inr j)
  show ?thesis
  proof (cases "\<exists>kvs d grps. j = JObj kvs \<and> map_of kvs (ustr ''data'') = Some (JObj d)
      \<and> map_of d (ustr ''filters'') = Some (JList grps)")
    case True
    then obtain kvs d grps where "j = JObj kvs" "map_of kvs (ustr ''data'') = Some (JObj d)"
      "map_of d (ustr ''filters'') = Some (JList grps)" by blast
    with Inr show ?thesis
      using process_groups_prefix [of wr s "cat_id cat" grps]
      by (simp add: after_response_def py_get_obj py_iter_def response_groups_def field_def)
  next
    case False
    with Inr have "fst (after_response wr R cat s) = []"
      by (auto simp: after_response_def py_get_def py_iter_def process_groups_strs
          simp del: process_groups.simps(2) split: json.splits option.splits)
    then show ?thesis by simp
  qed
qed

lemma after_response_ok:
  assumes R: "R (FILTER_API (shard cat) (query cat)) = Inr j" and j: "well_shaped j"
    and wr: "\<forall>i\<in>set (category_items (response_groups j)). wr (facet_record s (cat_id cat) i) = None"
  shows "after_response wr R cat s =
     (map (\<lambda>i. Write (facet_record s (cat_id cat) i)) (category_items (response_groups j)), Inr ())"
proof -
  from j obtain kvs where kvs: "j = JObj kvs"
    by (cases j) (simp_all add: well_shaped_def is_obj_def)
  show ?thesis
  proof (cases "map_of kvs (ustr ''data'')")
    case None
    with R kvs show ?thesis
      by (simp add: after_response_def py_get_obj py_iter_def response_groups_def field_def
          category_items_def)
  next
    case (Some data)
    with j kvs obtain d where d: "data = JObj d"
      by (cases data) (simp_all add: well_shaped_def is_obj_def field_def)
    show ?thesis
    proof (cases "map_of d (ustr ''filters'')")
      case None
      with R kvs Some d show ?thesis
        by (simp add: after_response_def py_get_obj py_iter_def response_groups_def field_def
            category_items_def)
    next
      case raw: (Some raw_filters)
      with j kvs Some d obtain grps where grps: "raw_filters = JList grps"
        and ok: "list_all (\<lambda>grp. is_obj grp \<and> (labelled grp \<longrightarrow> list_all is_obj (items_of grp))) grps"
        by (cases raw_filters) (simp_all add: well_shaped_def is_obj_def field_def)
      from wr kvs Some d raw grps
      have "\<forall>i\<in>set (category_items grps). wr (facet_record s (cat_id cat) i) = None"
        by (simp add: response_groups_def field_def)
      from R kvs Some d raw grps process_groups_ok [OF ok this] show ?thesis
        by (simp add: after_response_def py_get_obj py_iter_def response_groups_def field_def)
    qed
  qed
qed

lemma after_response_writes:
  "\<exists>ws. fst (after_response wr R cat s) = map Write ws
     \<and> (\<forall>w\<in>set ws. sheet_name w = s \<and> depth w = 99 \<and> parent w = Some (cat_id cat))"
proof -
  from after_response_prefix [of wr R cat s]
  obtain js where "fst (after_response wr R cat s)
      = map (\<lambda>i. Write (facet_record s (cat_id cat) i)) js"
    by (auto simp: prefix_def map_eq_append_conv split: sum.splits)
  then have "fst (after_response wr R cat s) = map Write (map (facet_record s (cat_id cat)) js)"
    by simp
  moreover have "\<forall>w\<in>set (map (facet_record s (cat_id cat)) js).
      sheet_name w = s \<and> depth w = 99 \<and> parent w = Some (cat_id cat)"
    by (simp add: facet_record_def)
  ultimately show ?thesis by blast
qed

lemma no_category_items_shape:
  assumes "no_category_items j"
  shows "well_shaped j \<and> category_items (response_groups j) = []"
proof -
  from assms obtain kvs where kvs: "j = JObj kvs"
    by (cases j) (simp_all add: no_category_items_def)
  show ?thesis
  proof (cases "map_of kvs (ustr ''data'')")
    case None
    with kvs show ?thesis
      by (simp add: well_shaped_def is_obj_def field_def response_groups_def category_items_def)
  next
    case (Some data)
    with assms kvs obtain d where d: "data = JObj d"
      by (cases data) (simp_all add: no_category_items_def)
    show ?thesis
    proof (cases "map_of d (ustr ''filters'')")
      case None
      with kvs Some d show ?thesis
        by (simp add: well_shaped_def is_obj_def field_def response_groups_def category_items_def)
    next
      case raw: (Some raw_filters)
      with assms kvs Some d obtain grps where grps: "raw_filters = JList grps"
        and all: "list_all (\<lambda>grp. is_obj grp \<and>
            (labelled grp \<longrightarrow> (case field grp ''items'' of Some (JList _) \<Rightarrow> False | _ \<Rightarrow> True))) grps"
        by (cases raw_filters) (simp_all add: no_category_items_def)
      have none: "items_of grp = []"
        if "labelled grp \<longrightarrow> (case field grp ''items'' of Some (JList _) \<Rightarrow> False | _ \<Rightarrow> True)"
          and "labelled grp" for grp
        using that by (auto simp: items_of_def split: option.splits json.splits)
      from all have "list_all (\<lambda>grp. is_obj grp \<and> (labelled grp \<longrightarrow> list_all is_obj (items_of grp))) grps"
        by (auto simp: list_all_iff none)
      moreover from all have "category_items grps = []"
        by (auto simp: category_items_def list_all_iff none)
      ultimately show ?thesis using kvs Some d raw grps
        by (simp add: well_shaped_def is_obj_def field_def response_groups_def)
    qed
  qed
qed

lemma fetch_items_events:
  "fetch_items wr R cat s =
     Acquire # Get (FILTER_API (shard cat) (query cat)) # fst (after_response wr R cat s)
     @ Release # (case snd (after_response wr R cat s) of
                    Inl e \<Rightarrow> [Print ''_fetch_items'' e] | Inr _ \<Rightarrow> [])"
  by (simp add: fetch_items_def fetch_items_body_def with_semaphore_def safe_api_call_def
      split: sum.splits prod.splits)

lemma fetch_items_split:
  "fetch_items wr R cat s =
     Acquire # Get (FILTER_API (shard cat) (query cat)) # resume_fetch_items wr R cat s"
  by (simp add: fetch_items_def fetch_items_body_def with_semaphore_def resume_fetch_items_def
      safe_api_call_def split: sum.splits prod.splits)

lemma resume_fetch_items_events:
  "resume_fetch_items wr R cat s =
     fst (after_response wr R cat s)
     @ Release # (case snd (after_response wr R cat s) of
                    Inl e \<Rightarrow> [Print ''_fetch_items'' e] | Inr _ \<Rightarrow> [])"
  by (simp add: resume_fetch_items_def safe_api_call_def split: sum.splits prod.splits)

lemma resume_fetch_items_counts:
  "count_list (resume_fetch_items wr R cat s) Acquire = 0"
  "count_list (resume_fetch_items wr R cat s) Release = 1"
  "requests (resume_fetch_items wr R cat s) = []"
proof -
  obtain ws where ws: "fst (after_response wr R cat s) = map Write ws"
    using after_response_writes by blast
  show "count_list (resume_fetch_items wr R cat s) Acquire = 0"
    "count_list (resume_fetch_items wr R cat s) Release = 1"
    "requests (resume_fetch_items wr R cat s) = []"
    by (simp_all add: resume_fetch_items_events ws split: sum.splits)
qed

lemma fetch_items_records_sheet:
  "w \<in> set (records (fetch_items wr R cat s)) \<Longrightarrow>
   sheet_name w = s \<and> depth w = 99 \<and> parent w = Some (cat_id cat)"
proof -
  obtain ws where ws: "fst (after_response wr R cat s) = map Write ws"
    and all: "\<forall>w\<in>set ws. sheet_name w = s \<and> depth w = 99 \<and> parent w = Some (cat_id cat)"
    using after_response_writes by blast
  have "records (fetch_items wr R cat s) = ws"
    by (simp add: fetch_items_events ws split: sum.splits)
  with all show "w \<in> set (records (fetch_items wr R cat s)) \<Longrightarrow> ?thesis" by simp
qed

lemma fetch_items_remote:
  "R' (FILTER_API (shard cat) (query cat)) = R (FILTER_API (shard cat) (query cat)) \<Longrightarrow>
   fetch_items wr R' cat s = fetch_items wr R cat s"
  by (simp only: fetch_items_events after_response_def)

lemma fetch_main_menu_raised:
  "fetch_main_menu (Inl e) = ([Get MAIN_MENU_URL, Print ''_fetch_main_menu'' e], None)"
  by (simp add: fetch_main_menu_def safe_api_call_def)

section \<open>Facts about the walk, one branch after the other\<close>

lemma first_raised_None_iff: "first_raised xs = None \<longleftrightarrow> (\<forall>x\<in>set xs. x = None)"
  by (induction xs rule: first_raised.induct) simp_all

lemma first_raised_append:
  "first_raised (xs @ ys) = (case first_raised xs of None \<Rightarrow> first_raised ys | Some e \<Rightarrow> Some e)"
  by (induction xs rule: first_raised.induct) simp_all

lemma gather_Nil [simp]: "gather [] = ([], None)"
  by (simp add: gather_def)

lemma first_raised_single [simp]: "first_raised [x] = x"
  by (cases x) simp_all

lemma gather_Cons:
  "gather (b # bs) = (fst b @ fst (gather bs), first_raised [snd b, snd (gather bs)])"
  by (cases "snd b") (simp_all add: gather_def)

lemma recurse_raise:
  "wr (node_record cat d p s) = Some e \<Longrightarrow> recurse wr R cat d p s = ([], Some e)"
  by (subst recurse.simps) simp

lemma recurse_childs:
  "wr (node_record cat d p s) = None \<Longrightarrow> truthy (childs cat) \<Longrightarrow>
   recurse wr R cat d p s =
     emit (Write (node_record cat d p s))
       (gather (map (\<lambda>sub. recurse wr R sub (d + 1) (Some (cat_id cat)) s) (elems (childs cat))))"
  by (subst recurse.simps) simp

lemma recurse_fetch:
  "wr (node_record cat d p s) = None \<Longrightarrow> fetch_due cat \<Longrightarrow>
   recurse wr R cat d p s = (Write (node_record cat d p s) # fetch_items wr R cat s, None)"
  by (subst recurse.simps) (simp add: fetch_due_def emit_def)

lemma recurse_leaf:
  "wr (node_record cat d p s) = None \<Longrightarrow> \<not> truthy (childs cat) \<Longrightarrow>
   \<not> (truthy (shard cat) \<and> truthy (query cat)) \<Longrightarrow>
   recurse wr R cat d p s = ([Write (node_record cat d p s)], None)"
  by (subst recurse.simps) (auto simp: emit_def)

lemma elems_not_truthy: "\<not> truthy v \<Longrightarrow> elems v = []"
  by (simp add: truthy_def elems_def split: option.splits)

lemma paths_not_Nil: "pth \<in> set (paths cat) \<Longrightarrow> pth \<noteq> []"
  by (subst (asm) paths.simps) auto

lemma paths_hd: "pth \<in> set (paths cat) \<Longrightarrow> hd pth = cat"
  by (subst (asm) paths.simps) auto

lemma forest_paths_hd: "pth \<in> set (forest_paths cats) \<Longrightarrow> hd pth \<in> set cats"
  by (auto simp: forest_paths_def paths_hd)

lemma path_record_snoc:
  "path_record (anc @ [cat]) =
     node_record cat (1 + int (length anc)) (if anc = [] then None else Some (cat_id (last anc)))
       (cat_name (hd (anc @ [cat])))"
  by (simp add: path_record_def node_record_def)

lemma paths_childless: "\<not> truthy (childs cat) \<Longrightarrow> paths cat = [[cat]]"
  by (subst paths.simps) (simp add: elems_not_truthy)

text \<open>
  A branch raises exactly when the writer refuses the own row of some node of the
  subtree.
\<close>

lemma recurse_snd:
  "snd (recurse wr R cat (1 + int (length anc))
          (if anc = [] then None else Some (cat_id (last anc))) (cat_name (hd (anc @ [cat]))))
     = None
   \<longleftrightarrow> (\<forall>pth\<in>set (paths cat). wr (path_record (anc @ pth)) = None)"
proof (induction cat arbitrary: anc rule: paths.induct)
  case (1 cat)
  let ?d = "1 + int (length anc)"
  let ?p = "if anc = [] then None else Some (cat_id (last anc))"
  let ?s = "cat_name (hd (anc @ [cat]))"
  show ?case
  proof (cases "wr (node_record cat ?d ?p ?s)")
    case (Some e)
    then have "wr (path_record (anc @ [cat])) \<noteq> None" by (simp add: path_record_snoc)
    moreover have "[cat] \<in> set (paths cat)" by (subst paths.simps) simp
    ultimately have "\<exists>pth\<in>set (paths cat). wr (path_record (anc @ pth)) \<noteq> None"
      by (intro bexI [of _ "[cat]"])
    with Some show ?thesis
      by (auto simp: recurse_raise)
  next
    case None
    then have own: "wr (path_record (anc @ [cat])) = None" by (simp add: path_record_snoc)
    show ?thesis
    proof (cases "truthy (childs cat)")
      case True
      have kids: "snd (recurse wr R sub (?d + 1) (Some (cat_id cat)) ?s) = None
          \<longleftrightarrow> (\<forall>pth\<in>set (paths sub). wr (path_record (anc @ cat # pth)) = None)"
        if "sub \<in> set (elems (childs cat))" for sub
        using "1.IH" [OF that, of "anc @ [cat]"] by (cases anc) simp_all
      have "snd (recurse wr R cat ?d ?p ?s) = None
          \<longleftrightarrow> (\<forall>sub\<in>set (elems (childs cat)).
                snd (recurse wr R sub (?d + 1) (Some (cat_id cat)) ?s) = None)"
        by (auto simp: recurse_childs [where wr = wr, OF None True] emit_def gather_def first_raised_None_iff)
      also have "\<dots> \<longleftrightarrow> (\<forall>sub\<in>set (elems (childs cat)).
          \<forall>pth\<in>set (paths sub). wr (path_record (anc @ cat # pth)) = None)"
        using kids by simp
      also have "\<dots> \<longleftrightarrow> (\<forall>pth\<in>set (paths cat). wr (path_record (anc @ pth)) = None)"
        using own by (subst (2) paths.simps) auto
      finally show ?thesis .
    next
      case False
      with None own show ?thesis
        by (cases "fetch_due cat")
          (auto simp: recurse_fetch recurse_leaf fetch_due_def paths_childless)
    qed
  qed
qed

text \<open>The events of a branch that does not raise, node by node.\<close>

lemma recurse_fst:
  assumes "snd (recurse wr R cat (1 + int (length anc))
      (if anc = [] then None else Some (cat_id (last anc))) (cat_name (hd (anc @ [cat])))) = None"
  shows "fst (recurse wr R cat (1 + int (length anc))
      (if anc = [] then None else Some (cat_id (last anc))) (cat_name (hd (anc @ [cat]))))
   = concat (map (\<lambda>pth. Write (path_record (anc @ pth)) # path_facets wr R (anc @ pth))
       (paths cat))"
  using assms
proof (induction cat arbitrary: anc rule: paths.induct)
  case (1 cat)
  let ?d = "1 + int (length anc)"
  let ?p = "if anc = [] then None else Some (cat_id (last anc))"
  let ?s = "cat_name (hd (anc @ [cat]))"
  let ?F = "\<lambda>anc pth. Write (path_record (anc @ pth)) # path_facets wr R (anc @ pth)"
  have own: "?F anc [cat] = Write (node_record cat ?d ?p ?s)
      # (if fetch_due cat then fetch_items wr R cat ?s else [])"
    by (simp add: path_record_snoc path_facets_def)
  from "1.prems" have None: "wr (node_record cat ?d ?p ?s) = None"
    by (cases "wr (node_record cat ?d ?p ?s)") (simp_all add: recurse_raise)
  show ?case
  proof (cases "truthy (childs cat)")
    case True
    from "1.prems" have all: "snd (recurse wr R sub (?d + 1) (Some (cat_id cat)) ?s) = None"
      if "sub \<in> set (elems (childs cat))" for sub
      using that
      by (auto simp: recurse_childs [where wr = wr, OF None True] emit_def gather_def first_raised_None_iff)
    have kids: "fst (recurse wr R sub (?d + 1) (Some (cat_id cat)) ?s)
        = concat (map (?F (anc @ [cat])) (paths sub))"
      if "sub \<in> set (elems (childs cat))" for sub
      using "1.IH" [OF that, of "anc @ [cat]"] all [OF that] by (cases anc) simp_all
    have "fst (recurse wr R cat ?d ?p ?s) = Write (node_record cat ?d ?p ?s)
        # concat (map (\<lambda>sub. concat (map (?F (anc @ [cat])) (paths sub))) (elems (childs cat)))"
      using kids by (simp add: recurse_childs [where wr = wr, OF None True] emit_def gather_def cong: map_cong)
    also have "\<dots> = concat (map (?F anc) (paths cat))"
      using True own
      by (subst (2) paths.simps) (simp add: fetch_due_def comp_def concat_map_concat)
    finally show ?thesis .
  next
    case False
    with None own show ?thesis
      by (cases "fetch_due cat")
        (auto simp: recurse_fetch recurse_leaf fetch_due_def paths_childless)
  qed
qed

text \<open>The events of any branch are among those the nodes of the subtree are due.\<close>

lemma sum_list_subset_mset:
  "(\<And>x. x \<in> set xs \<Longrightarrow> f x \<subseteq># g x) \<Longrightarrow>
   sum_list (map f xs) \<subseteq># sum_list (map (g :: 'a \<Rightarrow> 'b multiset) xs)"
  by (induction xs) (simp_all add: subset_mset.add_mono)

lemma recurse_fst_sub:
  "mset (fst (recurse wr R cat (1 + int (length anc))
      (if anc = [] then None else Some (cat_id (last anc))) (cat_name (hd (anc @ [cat])))))
   \<subseteq># mset (concat (map (\<lambda>pth. Write (path_record (anc @ pth)) # path_facets wr R (anc @ pth))
       (paths cat)))"
proof (induction cat arbitrary: anc rule: paths.induct)
  case (1 cat)
  let ?d = "1 + int (length anc)"
  let ?p = "if anc = [] then None else Some (cat_id (last anc))"
  let ?s = "cat_name (hd (anc @ [cat]))"
  let ?F = "\<lambda>anc pth. Write (path_record (anc @ pth)) # path_facets wr R (anc @ pth)"
  have own: "?F anc [cat] = Write (node_record cat ?d ?p ?s)
      # (if fetch_due cat then fetch_items wr R cat ?s else [])"
    by (simp add: path_record_snoc path_facets_def)
  show ?case
  proof (cases "wr (node_record cat ?d ?p ?s)")
    case (Some e)
    then show ?thesis by (simp add: recurse_raise)
  next
    case None
    show ?thesis
    proof (cases "truthy (childs cat)")
      case True
      have kids: "mset (fst (recurse wr R sub (?d + 1) (Some (cat_id cat)) ?s))
          \<subseteq># mset (concat (map (?F (anc @ [cat])) (paths sub)))"
        if "sub \<in> set (elems (childs cat))" for sub
        using "1.IH" [OF that, of "anc @ [cat]"] by (cases anc) simp_all
      have "mset (fst (recurse wr R cat ?d ?p ?s))
          = {#Write (node_record cat ?d ?p ?s)#}
            + (\<Sum>sub\<leftarrow>elems (childs cat).
                 mset (fst (recurse wr R sub (?d + 1) (Some (cat_id cat)) ?s)))"
        by (simp add: recurse_childs [where wr = wr, OF None True] emit_def gather_def mset_concat_map comp_def)
      also have "\<dots> \<subseteq># {#Write (node_record cat ?d ?p ?s)#}
            + (\<Sum>sub\<leftarrow>elems (childs cat). mset (concat (map (?F (anc @ [cat])) (paths sub))))"
        by (intro subset_mset.add_mono sum_list_subset_mset kids) simp_all
      also have "\<dots> = mset (concat (map (?F anc) (paths cat)))"
        using True own
        by (subst (2) paths.simps)
          (simp add: fetch_due_def comp_def concat_map_concat mset_concat_map)
      finally show ?thesis .
    next
      case False
      with None own show ?thesis
        by (cases "fetch_due cat")
          (auto simp: recurse_fetch recurse_leaf fetch_due_def paths_childless)
    qed
  qed
qed

lemma process_all_snd:
  "snd (process_all wr R cats) = None
   \<longleftrightarrow> (\<forall>pth\<in>set (forest_paths cats). wr (path_record pth) = None)"
proof -
  have "snd (recurse wr R cat 1 None (cat_name cat)) = None
      \<longleftrightarrow> (\<forall>pth\<in>set (paths cat). wr (path_record pth) = None)" for cat
    using recurse_snd [of wr R cat "[]"] by simp
  then show ?thesis
    by (auto simp: process_all_def gather_def first_raised_None_iff forest_paths_def)
qed

lemma process_all_fst:
  assumes "snd (process_all wr R cats) = None"
  shows "fst (process_all wr R cats)
   = concat (map (\<lambda>pth. Write (path_record pth) # path_facets wr R pth) (forest_paths cats))"
proof -
  have "fst (recurse wr R cat 1 None (cat_name cat))
      = concat (map (\<lambda>pth. Write (path_record pth) # path_facets wr R pth) (paths cat))"
    if "cat \<in> set cats" for cat
  proof -
    from assms that have "snd (recurse wr R cat 1 None (cat_name cat)) = None"
      by (auto simp: process_all_def gather_def first_raised_None_iff)
    with recurse_fst [of wr R cat "[]"] show ?thesis by simp
  qed
  then show ?thesis
    by (simp add: process_all_def gather_def forest_paths_def comp_def concat_map_concat
        cong: map_cong)
qed

lemma process_all_fst_sub:
  "mset (fst (process_all wr R cats))
   \<subseteq># mset (concat (map (\<lambda>pth. Write (path_record pth) # path_facets wr R pth)
       (forest_paths cats)))"
proof -
  have "mset (fst (recurse wr R cat 1 None (cat_name cat)))
      \<subseteq># mset (concat (map (\<lambda>pth. Write (path_record pth) # path_facets wr R pth) (paths cat)))"
    for cat
    using recurse_fst_sub [of wr R cat "[]"] by simp
  then have "(\<Sum>cat\<leftarrow>cats. mset (fst (recurse wr R cat 1 None (cat_name cat))))
      \<subseteq># (\<Sum>cat\<leftarrow>cats. mset (concat (map (\<lambda>pth. Write (path_record pth) # path_facets wr R pth)
          (paths cat))))"
    by (intro sum_list_subset_mset)
  then show ?thesis
    by (simp add: process_all_def gather_def forest_paths_def comp_def concat_map_concat
        mset_concat_map)
qed

section \<open>Facts about the walk, branches interleaved\<close>

lemma Release_in_resume: "{#Release#} \<subseteq># mset (resume_fetch_items wr R cat s)"
  by (simp add: resume_fetch_items_events)

lemma mset_replicate_sum_list:
  "mset (replicate (length xs) a) = (\<Sum>x\<leftarrow>xs. {#a#})"
  by (induction xs) simp_all

lemma step_pending_sub:
  assumes "step wr R c c'"
  shows "mset (trace c') + pending wr R c' \<subseteq># mset (trace c) + pending wr R c"
  using assms
proof cases
  case (start_raise xs cat d p s ys e)
  then show ?thesis
    by (simp add: pending_def recurse_raise)
next
  case (start_childs xs cat d p s ys)
  then show ?thesis
    by (simp add: pending_def recurse_childs emit_def gather_def mset_concat_map comp_def)
next
  case (start_fetch xs cat d p s ys)
  then show ?thesis
    by (simp add: pending_def recurse_fetch fetch_due_def)
next
  case (start_leaf xs cat d p s ys)
  then show ?thesis
    by (simp add: pending_def recurse_leaf)
next
  case (acquire xs cat s ys)
  then show ?thesis
    by (simp add: pending_def fetch_items_split)
next
  case (respond xs cat s ys)
  then show ?thesis
    by (simp add: pending_def)
next
  case (cancel e)
  have "mset (replicate (length (inflight c)) Release)
      \<subseteq># (\<Sum>(cat, s)\<leftarrow>inflight c. mset (resume_fetch_items wr R cat s))"
    unfolding mset_replicate_sum_list
    by (rule sum_list_subset_mset) (auto simp: resume_fetch_items_events)
  then have "mset (replicate (length (inflight c)) Release) \<subseteq># pending wr R c"
    by (simp add: pending_def subset_mset.add_increasing)
  with cancel show ?thesis
    by (simp add: pending_def)
qed

lemma step_pending_eq:
  assumes "step wr R c c'" and "raised c' = None"
  shows "mset (trace c') + pending wr R c' = mset (trace c) + pending wr R c \<and> raised c = None"
  using assms
proof cases
  case (start_raise xs cat d p s ys e)
  with assms(2) show ?thesis by (cases "raised c") simp_all
next
  case (start_childs xs cat d p s ys)
  with assms(2) show ?thesis
    by (simp add: pending_def recurse_childs emit_def gather_def mset_concat_map comp_def)
next
  case (start_fetch xs cat d p s ys)
  with assms(2) show ?thesis
    by (simp add: pending_def recurse_fetch fetch_due_def)
next
  case (start_leaf xs cat d p s ys)
  with assms(2) show ?thesis
    by (simp add: pending_def recurse_leaf)
next
  case (acquire xs cat s ys)
  with assms(2) show ?thesis
    by (simp add: pending_def fetch_items_split)
next
  case (respond xs cat s ys)
  with assms(2) show ?thesis
    by (simp add: pending_def)
next
  case (cancel e)
  with assms(2) show ?thesis by simp
qed

lemma steps_pending_sub:
  assumes "(step wr R)\<^sup>*\<^sup>* c c'"
  shows "mset (trace c') + pending wr R c' \<subseteq># mset (trace c) + pending wr R c"
  using assms
proof (induction rule: rtranclp_induct)
  case base
  show ?case by simp
next
  case (step y z)
  from step_pending_sub [OF step.hyps(2)] step.IH show ?case
    by (rule subset_mset.order_trans)
qed

lemma steps_pending_eq:
  assumes "(step wr R)\<^sup>*\<^sup>* c c'" and "raised c' = None"
  shows "mset (trace c') + pending wr R c' = mset (trace c) + pending wr R c"
  using assms
proof (induction rule: rtranclp_induct)
  case base
  show ?case by simp
next
  case (step y z)
  from step_pending_eq [OF step.hyps(2) step.prems] step.IH show ?case by simp
qed

lemma pending_init: "pending wr R (init cats) = mset (fst (process_all wr R cats))"
  by (simp add: pending_def init_def process_all_def gather_def mset_concat_map comp_def)

lemma pending_final: "final c \<Longrightarrow> pending wr R c = {#}"
  by (simp add: pending_def final_def)

text \<open>Whether a run raises does not depend on the order of its steps.\<close>

lemma step_will_raise:
  assumes "step wr R c c'"
  shows "will_raise wr R c' \<longleftrightarrow> will_raise wr R c"
  using assms
proof cases
  case (start_raise xs cat d p s ys e)
  then show ?thesis
    by (cases "raised c") (auto simp: will_raise_def recurse_raise)
next
  case (start_childs xs cat d p s ys)
  let ?raises = "\<lambda>(cat, d, p, s). snd (recurse wr R cat d p s) \<noteq> None"
  let ?task = "\<lambda>sub. (sub, d + 1, Some (cat_id cat), s)"
  from start_childs have "snd (recurse wr R cat d p s) = None
      \<longleftrightarrow> (\<forall>sub\<in>set (elems (childs cat)).
            snd (recurse wr R sub (d + 1) (Some (cat_id cat)) s) = None)"
    by (simp add: recurse_childs emit_def gather_def first_raised_None_iff)
  then have own: "?raises (cat, d, p, s)
      \<longleftrightarrow> (\<exists>sub\<in>set (elems (childs cat)). ?raises (?task sub))"
    by (simp del: not_None_eq)
  from start_childs have "(\<exists>t\<in>set (ready c'). ?raises t)
      \<longleftrightarrow> (\<exists>t\<in>set xs \<union> set ys. ?raises t)
        \<or> (\<exists>sub\<in>set (elems (childs cat)). ?raises (?task sub))"
    by (simp add: bex_Un) blast
  moreover from start_childs have "(\<exists>t\<in>set (ready c). ?raises t)
      \<longleftrightarrow> (\<exists>t\<in>set xs \<union> set ys. ?raises t) \<or> ?raises (cat, d, p, s)"
    by (simp add: bex_Un) blast
  moreover from start_childs have "raised c' = raised c" by simp
  ultimately show ?thesis
    unfolding will_raise_def using own by simp
next
  case (start_fetch xs cat d p s ys)
  then show ?thesis
    by (auto simp: will_raise_def recurse_fetch fetch_due_def)
next
  case (start_leaf xs cat d p s ys)
  then show ?thesis
    by (auto simp: will_raise_def recurse_leaf)
next
  case (acquire xs cat s ys)
  then show ?thesis by (simp add: will_raise_def)
next
  case (respond xs cat s ys)
  then show ?thesis by (simp add: will_raise_def)
next
  case (cancel e)
  then show ?thesis by (simp add: will_raise_def)
qed

lemma steps_will_raise:
  assumes "(step wr R)\<^sup>*\<^sup>* c c'"
  shows "will_raise wr R c' \<longleftrightarrow> will_raise wr R c"
  using assms by (induction rule: rtranclp_induct) (simp_all add: step_will_raise)

lemma will_raise_init: "will_raise wr R (init cats) \<longleftrightarrow> snd (process_all wr R cats) \<noteq> None"
  by (auto simp: will_raise_def init_def process_all_def gather_def first_raised_None_iff)

lemma will_raise_final: "final c \<Longrightarrow> will_raise wr R c \<longleftrightarrow> raised c \<noteq> None"
  by (simp add: will_raise_def final_def)

lemma walk_run_raised:
  assumes "walk_run wr R cats tr ex"
  shows "ex = None \<longleftrightarrow> snd (process_all wr R cats) = None"
  using assms
proof cases
  case (1 c)
  from steps_will_raise [OF 1(3)] will_raise_init [of wr R cats] will_raise_final [OF 1(4), of wr R]
    1(2)
  show ?thesis by auto
qed

lemma walk_run_sub:
  assumes "walk_run wr R cats tr ex"
  shows "mset tr \<subseteq># mset (fst (process_all wr R cats))"
  using assms
proof cases
  case (1 c)
  from steps_pending_sub [OF 1(3), unfolded pending_init] pending_final [OF 1(4), of wr R] 1(1)
  show ?thesis by (simp add: init_def)
qed

lemma walk_run_mset:
  assumes "walk_run wr R cats tr None"
  shows "mset tr = mset (fst (process_all wr R cats))"
  using assms
proof cases
  case (1 c)
  from 1(2) have "raised c = None" by simp
  from steps_pending_eq [OF 1(3) this, unfolded pending_init] pending_final [OF 1(4), of wr R] 1(1)
  show ?thesis by (simp add: init_def)
qed

lemma step_permits:
  assumes "step wr R c c'"
  shows "permits c' + length (inflight c') = permits c + length (inflight c)"
  using assms by cases simp_all

lemma steps_permits:
  assumes "(step wr R)\<^sup>*\<^sup>* c c'"
  shows "permits c' + length (inflight c') = permits c + length (inflight c)"
  using assms by (induction rule: rtranclp_induct) (simp_all add: step_permits)

lemma count_list_replicate [simp]:
  "count_list (replicate n a) b = (if a = b then n else 0)"
  by (induction n) auto

lemma requests_replicate_Release [simp]: "requests (replicate n Release) = []"
  by (induction n) simp_all



lemma first_raised_pair_None [simp]: "first_raised [a, None] = a"
  by (cases a) simp_all

lemma first_raised_nested [simp]:
  "first_raised (first_raised [a, b] # xs) = first_raised (a # b # xs)"
  by (cases a; cases b) simp_all

lemma first_raised_pair_list: "first_raised [a, first_raised xs] = first_raised (a # xs)"
  by (cases a) simp_all

text \<open>The branches run one after the other, each to its end, are a run.\<close>

lemma run_branch:
  assumes "idle c" and "ready c = (cat, d, p, s) # rest"
  shows "(step wr R)\<^sup>*\<^sup>* c
     (c\<lparr>ready := rest, trace := trace c @ fst (recurse wr R cat d p s),
        raised := first_raised [raised c, snd (recurse wr R cat d p s)]\<rparr>)"
  using assms
proof (induction wr R cat d p s arbitrary: c rest rule: recurse.induct)
  case (1 wr R cat d p s)
  let ?own = "Write (node_record cat d p s)"
  from "1.prems" have r: "ready c = [] @ (cat, d, p, s) # rest" by simp
  show ?case
  proof (cases "wr (node_record cat d p s)")
    case (Some e)
    from r Some have "step wr R c (c\<lparr>ready := [] @ rest, raised := first_raised [raised c, Some e]\<rparr>)"
      by (rule start_raise)
    then show ?thesis by (simp add: recurse_raise [where wr = wr, OF Some])
  next
    case None
    show ?thesis
    proof (cases "truthy (childs cat)")
      case True
      let ?task = "\<lambda>sub. (sub, d + 1, Some (cat_id cat), s)"
      let ?rec = "\<lambda>sub. recurse wr R sub (d + 1) (Some (cat_id cat)) s"
      have kids: "(step wr R)\<^sup>*\<^sup>* c'
          (c'\<lparr>ready := rest', trace := trace c' @ concat (map (\<lambda>sub. fst (?rec sub)) subs),
              raised := first_raised (raised c' # map (\<lambda>sub. snd (?rec sub)) subs)\<rparr>)"
        if "set subs \<subseteq> set (elems (childs cat))" and "idle c'"
          and "ready c' = map ?task subs @ rest'" for subs c' rest'
        using that
      proof (induction subs arbitrary: c')
        case Nil
        then have "c'\<lparr>ready := rest', trace := trace c' @ concat (map (\<lambda>sub. fst (?rec sub)) []),
            raised := first_raised (raised c' # map (\<lambda>sub. snd (?rec sub)) [])\<rparr> = c'"
          by simp
        then show ?case by simp
      next
        case (Cons sub subs)
        let ?c1 = "c'\<lparr>ready := map ?task subs @ rest', trace := trace c' @ fst (?rec sub),
          raised := first_raised [raised c', snd (?rec sub)]\<rparr>"
        from Cons.prems have "sub \<in> set (elems (childs cat))" by simp
        from "1.IH" [OF None True this Cons.prems(2)] Cons.prems(3)
        have "(step wr R)\<^sup>*\<^sup>* c' ?c1" by simp
        moreover from Cons.prems have "idle ?c1" by (simp add: idle_def)
        with Cons.IH [of ?c1] Cons.prems(1)
        have "(step wr R)\<^sup>*\<^sup>* ?c1
            (?c1\<lparr>ready := rest', trace := trace ?c1 @ concat (map (\<lambda>sub. fst (?rec sub)) subs),
                raised := first_raised (raised ?c1 # map (\<lambda>sub. snd (?rec sub)) subs)\<rparr>)"
          by simp
        ultimately show ?case by simp
      qed
      let ?c1 = "c\<lparr>ready := [] @ map ?task (elems (childs cat)) @ rest,
        trace := trace c @ [?own]\<rparr>"
      from r None True have "step wr R c ?c1" by (rule start_childs)
      moreover from "1.prems" have "idle ?c1" by (simp add: idle_def)
      then have "(step wr R)\<^sup>*\<^sup>* ?c1
          (?c1\<lparr>ready := rest,
               trace := trace ?c1 @ concat (map (\<lambda>sub. fst (?rec sub)) (elems (childs cat))),
               raised := first_raised (raised ?c1 # map (\<lambda>sub. snd (?rec sub)) (elems (childs cat)))\<rparr>)"
        by (intro kids) simp_all
      ultimately show ?thesis
        by (simp add: recurse_childs [where wr = wr, OF None True] emit_def gather_def comp_def
            first_raised_pair_list)
    next
      case False
      show ?thesis
      proof (cases "truthy (shard cat) \<and> truthy (query cat)")
        case fetch: True
        let ?c1 = "c\<lparr>ready := [] @ rest, waiting := waiting c @ [(cat, s)],
          trace := trace c @ [?own]\<rparr>"
        let ?c2 = "?c1\<lparr>waiting := [] @ [], inflight := inflight ?c1 @ [(cat, s)],
          permits := permits ?c1 - 1,
          trace := trace ?c1 @ [Acquire, Get (FILTER_API (shard cat) (query cat))]\<rparr>"
        let ?c3 = "?c2\<lparr>inflight := [] @ [], permits := permits ?c2 + 1,
          trace := trace ?c2 @ resume_fetch_items wr R cat s\<rparr>"
        from r None False fetch have "step wr R c ?c1" by (rule start_fetch)
        moreover from "1.prems" have "waiting ?c1 = [] @ (cat, s) # []" "0 < permits ?c1"
          by (simp_all add: idle_def)
        then have "step wr R ?c1 ?c2" by (rule acquire)
        moreover from "1.prems" have "inflight ?c2 = [] @ (cat, s) # []"
          by (simp add: idle_def)
        then have "step wr R ?c2 ?c3" by (rule respond)
        moreover from "1.prems" False fetch
        have "?c3 = c\<lparr>ready := rest, trace := trace c @ fst (recurse wr R cat d p s),
            raised := first_raised [raised c, snd (recurse wr R cat d p s)]\<rparr>"
          by (simp add: idle_def recurse_fetch [where wr = wr, OF None] fetch_due_def
              fetch_items_split)
        ultimately show ?thesis by simp
      next
        case leaf: False
        let ?c1 = "c\<lparr>ready := [] @ rest, trace := trace c @ [?own]\<rparr>"
        from r None False leaf have "step wr R c ?c1" by (rule start_leaf)
        then show ?thesis
          by (simp add: recurse_leaf [where wr = wr, OF None False leaf])
      qed
    qed
  qed
qed

lemma run_branches:
  assumes "idle c" and "ready c = map (\<lambda>cat. (cat, 1, None, cat_name cat)) cats @ rest"
  shows "(step wr R)\<^sup>*\<^sup>* c
     (c\<lparr>ready := rest,
        trace := trace c @ concat (map (\<lambda>cat. fst (recurse wr R cat 1 None (cat_name cat))) cats),
        raised := first_raised
          (raised c # map (\<lambda>cat. snd (recurse wr R cat 1 None (cat_name cat))) cats)\<rparr>)"
  using assms
proof (induction cats arbitrary: c)
  case Nil
  then have "c\<lparr>ready := rest,
      trace := trace c @ concat (map (\<lambda>cat. fst (recurse wr R cat 1 None (cat_name cat))) []),
      raised := first_raised
        (raised c # map (\<lambda>cat. snd (recurse wr R cat 1 None (cat_name cat))) [])\<rparr> = c"
    by simp
  then show ?case by simp
next
  case (Cons cat cats)
  let ?c1 = "c\<lparr>ready := map (\<lambda>cat. (cat, 1, None, cat_name cat)) cats @ rest,
    trace := trace c @ fst (recurse wr R cat 1 None (cat_name cat)),
    raised := first_raised [raised c, snd (recurse wr R cat 1 None (cat_name cat))]\<rparr>"
  from Cons.prems have "(step wr R)\<^sup>*\<^sup>* c ?c1"
    by (intro run_branch) simp_all
  moreover from Cons.prems have "idle ?c1" by (simp add: idle_def)
  with Cons.IH [of ?c1]
  have "(step wr R)\<^sup>*\<^sup>* ?c1
      (?c1\<lparr>ready := rest,
          trace := trace ?c1
            @ concat (map (\<lambda>cat. fst (recurse wr R cat 1 None (cat_name cat))) cats),
          raised := first_raised
            (raised ?c1 # map (\<lambda>cat. snd (recurse wr R cat 1 None (cat_name cat))) cats)\<rparr>)"
    by simp
  ultimately show ?case by simp
qed

lemma walk_run_process_all:
  "walk_run wr R cats (fst (process_all wr R cats)) (snd (process_all wr R cats))"
proof -
  let ?c = "(init cats)\<lparr>ready := [],
    trace := trace (init cats)
      @ concat (map (\<lambda>cat. fst (recurse wr R cat 1 None (cat_name cat))) cats),
    raised := first_raised
      (raised (init cats) # map (\<lambda>cat. snd (recurse wr R cat 1 None (cat_name cat))) cats)\<rparr>"
  have "(step wr R)\<^sup>*\<^sup>* (init cats) ?c"
    by (rule run_branches) (simp_all add: idle_def init_def)
  moreover have "final ?c" by (simp add: final_def init_def)
  ultimately have "walk_run wr R cats (trace ?c) (raised ?c)" by (rule walk_run.intros)
  then show ?thesis by (simp add: init_def process_all_def gather_def comp_def)
qed

section \<open>Every walk ends\<close>

lemma weight_children:
  "sum_list (map (\<lambda>sub. 3 * size sub + 3) (elems (childs cat))) < 3 * size cat + 3"
proof (cases cat)
  case (Category i n sh q u ch)
  have "sum_list (map (\<lambda>sub. 3 * size sub + 3) cs) = 3 * size_list size cs"
    for cs :: "category list"
    by (induction cs) simp_all
  with Category show ?thesis
    by (cases ch) (simp_all add: elems_def)
qed

lemma weight_final: "\<not> final c \<Longrightarrow> 0 < weight c"
  by (cases "ready c"; cases "waiting c"; cases "inflight c")
    (auto simp: final_def weight_def)

lemma step_weight:
  assumes "step wr R c c'"
  shows "weight c' < weight c"
  using assms
proof cases
  case (start_childs xs cat d p s ys)
  with weight_children [of cat] show ?thesis
    by (simp add: weight_def comp_def)
next
  case (cancel e)
  with weight_final [of c] show ?thesis by (simp add: weight_def)
qed (simp_all add: weight_def)

lemma step_wf: "wf {(c', c). step wr R c c'}"
proof (rule wf_subset)
  show "wf (measure weight)" by simp
  show "{(c', c). step wr R c c'} \<subseteq> measure weight" by (auto simp: step_weight)
qed

lemma progress:
  assumes "permits c + length (inflight c) = 30" and "\<not> final c"
  shows "\<exists>c'. step wr R c c'"
proof (cases "ready c")
  case (Cons t ts)
  obtain cat d p s where "t = (cat, d, p, s)" by (cases t)
  with Cons have r: "ready c = [] @ (cat, d, p, s) # ts" by simp
  show ?thesis
  proof (cases "wr (node_record cat d p s)")
    case (Some e)
    with r show ?thesis by (blast intro: start_raise)
  next
    case None
    show ?thesis
    proof (cases "truthy (childs cat)")
      case True
      with r None show ?thesis by (blast intro: start_childs)
    next
      case False
      with r None show ?thesis
        by (cases "truthy (shard cat) \<and> truthy (query cat)")
          (blast intro: start_fetch start_leaf)+
    qed
  qed
next
  case Nil
  show ?thesis
  proof (cases "inflight c")
    case (Cons f fs)
    obtain cat s where "f = (cat, s)" by (cases f)
    with Cons have "inflight c = [] @ (cat, s) # fs" by simp
    then show ?thesis by (blast intro: respond)
  next
    case inflight: Nil
    with Nil assms(2) obtain w ws where "waiting c = w # ws"
      by (cases "waiting c") (simp_all add: final_def)
    moreover obtain cat s where "w = (cat, s)" by (cases w)
    ultimately have "waiting c = [] @ (cat, s) # ws" by simp
    moreover from assms(1) inflight have "0 < permits c" by simp
    ultimately show ?thesis by (blast intro: acquire)
  qed
qed

lemma run_completes:
  assumes "(step wr R)\<^sup>*\<^sup>* (init cats) c"
  shows "\<exists>c'. (step wr R)\<^sup>*\<^sup>* c c' \<and> final c'"
  using assms
proof (induction "weight c" arbitrary: c rule: less_induct)
  case less
  show ?case
  proof (cases "final c")
    case True
    then show ?thesis by blast
  next
    case False
    from steps_permits [OF less.prems] have "permits c + length (inflight c) = 30"
      by (simp add: init_def)
    from progress [OF this False] obtain c1 where c1: "step wr R c c1" by blast
    with less.prems have "(step wr R)\<^sup>*\<^sup>* (init cats) c1" by simp
    from less.hyps [OF step_weight [OF c1] this] obtain c'
      where "(step wr R)\<^sup>*\<^sup>* c1 c'" "final c'" by blast
    with c1 show ?thesis by (blast intro: converse_rtranclp_into_rtranclp)
  qed
qed

section \<open>The small catalogue, evaluated\<close>

lemma xlsx_accepts:
  assumes "\<forall>c\<in>set s. c \<notin> set illegal_title" and "xlsx_cell i = None" and "xlsx_cell n = None"
  shows "xlsx \<lparr>sheet_name = s, item_id = i, name = n, depth = d, parent = p\<rparr> = None"
proof -
  from assms(1) have "\<forall>c\<in>set (take 31 s). c \<notin> set illegal_title"
    by (auto dest: in_set_takeD)
  then have "xlsx_create_sheet (take 31 s) = None"
    by (simp add: xlsx_create_sheet_def)
  with assms(2,3) show ?thesis
    by (simp add: xlsx_def excel_write_def xlsx_append_def xlsx_cell_def)
qed

lemma xlsx_refuses_title:
  assumes "c \<in> set (take 31 s)" and "c \<in> set illegal_title"
  shows "xlsx \<lparr>sheet_name = s, item_id = i, name = n, depth = d, parent = p\<rparr> = Some ValueError"
  using assms by (auto simp: xlsx_def excel_write_def xlsx_create_sheet_def)

lemma xlsx_cells:
  "xlsx_cell (JInt k) = None"
  "xlsx_cell (JStr (ustr ''A'')) = None"
  "xlsx_cell (JStr (ustr ''A1'')) = None"
  "xlsx_cell (JStr (ustr ''B'')) = None"
  "xlsx_cell (JStr (ustr ''C'')) = None"
  "xlsx_cell (JStr (ustr ''C1'')) = None"
  "xlsx_cell (JStr (ustr ''C2'')) = None"
  "xlsx_cell (JStr (ustr ''E'')) = None"
  "xlsx_cell (JStr (ustr ''F1'')) = None"
  "xlsx_cell (JStr (ustr ''Unnamed'')) = None"
  "xlsx_cell (JList js) = Some ValueError"
  by (simp_all add: xlsx_cell_def ustr_def illegal_char_def)

lemma xlsx_titles:
  "\<forall>c\<in>set (ustr ''A''). c \<notin> set illegal_title"
  "\<forall>c\<in>set (ustr ''B''). c \<notin> set illegal_title"
  "\<forall>c\<in>set (ustr ''C''). c \<notin> set illegal_title"
  "\<forall>c\<in>set (ustr ''E''). c \<notin> set illegal_title"
  by (simp_all add: ustr_def illegal_title_def)

lemma xlsx_nodes:
  "xlsx (node_record cat_A 1 None (ustr ''A'')) = None"
  "xlsx (node_record cat_A1 2 (Some 1) (ustr ''A'')) = None"
  "xlsx (node_record cat_B d p (ustr ''B'')) = None"
  "xlsx (node_record cat_B d p (ustr ''A'')) = None"
  "xlsx (node_record cat_C 1 None (ustr ''C'')) = None"
  "xlsx (node_record cat_C1 2 (Some 5) (ustr ''C'')) = None"
  "xlsx (node_record cat_C2 3 (Some 6) (ustr ''C'')) = None"
  "xlsx (node_record cat_E 1 None (ustr ''E'')) = None"
  by (simp_all add: node_record_def cat_A_def cat_A1_def cat_B_def cat_C_def cat_C1_def
      cat_C2_def cat_E_def xlsx_accepts xlsx_cells xlsx_titles)

lemma xlsx_slash: "xlsx (node_record cat_S 1 None (ustr ''A/B'')) = Some ValueError"
proof -
  have "47 \<in> set (take 31 (ustr ''A/B''))" "(47 :: nat) \<in> set illegal_title"
    by (simp_all add: ustr_def illegal_title_def)
  then show ?thesis
    unfolding node_record_def by (rule xlsx_refuses_title)
qed

lemma xlsx_facets:
  "xlsx (facet_record (ustr ''A'') pid facet_F1) = None"
  "xlsx (facet_record (ustr ''B'') pid facet_F1) = None"
  "xlsx (facet_record (ustr ''C'') pid facet_F1) = None"
  "xlsx (facet_record (ustr ''A'') pid (JObj [])) = None"
  by (simp_all add: facet_record_def facet_F1_def field_def xlsx_accepts xlsx_cells xlsx_titles)

lemma xlsx_list_id:
  "xlsx (facet_record (ustr ''B'') pid
      (JObj [(ustr ''id'', JList [JInt 1]), (ustr ''name'', JStr (ustr ''x''))]))
   = Some ValueError"
proof -
  have "xlsx_create_sheet (take 31 (ustr ''B'')) = None"
    by (simp add: xlsx_create_sheet_def ustr_def illegal_title_def)
  then show ?thesis
    by (simp add: facet_record_def field_def xlsx_def excel_write_def xlsx_append_def
        xlsx_cells)
qed

lemma remote_ok_after_response:
  "wr (facet_record s (cat_id cat) facet_F1) = None \<Longrightarrow>
   after_response wr remote_ok cat s = ([Write (facet_record s (cat_id cat) facet_F1)], Inr ())"
  by (simp add: after_response_def remote_ok_def response_ok_def filters_response_def
      category_group_def py_get_def py_iter_def facet_F1_def facet_record_def field_def)

lemma remote_ok_facets:
  "wr (facet_record s (cat_id cat) facet_F1) = None \<Longrightarrow>
   resume_fetch_items wr remote_ok cat s = [Write (facet_record s (cat_id cat) facet_F1), Release]"
  by (simp add: resume_fetch_items_events remote_ok_after_response)

lemma cat_ids [simp]: "cat_id cat_B = 3" "cat_id cat_C2 = 7" "cat_id cat_A = 1"
  by (simp_all add: cat_A_def cat_B_def cat_C2_def)

lemma example_config_reached:
  "(step xlsx remote_ok)\<^sup>*\<^sup>* (init [cat_A, cat_B]) example_config"
proof -
  let ?c1 = "\<lparr>ready = [(cat_A, 1, None, ustr ''A'')], waiting = [(cat_B, ustr ''B'')],
    inflight = [], permits = 30, trace = take 1 example_trace, raised = None\<rparr>"
  let ?c2 = "\<lparr>ready = [(cat_A1, 2, Some 1, ustr ''A'')], waiting = [(cat_B, ustr ''B'')],
    inflight = [], permits = 30, trace = take 2 example_trace, raised = None\<rparr>"
  have "step xlsx remote_ok (init [cat_A, cat_B]) ?c1"
    using start_fetch [of "init [cat_A, cat_B]" "[(cat_A, 1, None, ustr ''A'')]" cat_B 1 None
        "ustr ''B''" "[]" xlsx remote_ok] xlsx_nodes
    by (simp add: init_def cat_A_def cat_B_def truthy_def example_trace_def)
  moreover have "step xlsx remote_ok ?c1 ?c2"
    using start_childs [of ?c1 "[]" cat_A 1 None "ustr ''A''" "[]" xlsx remote_ok] xlsx_nodes
    by (simp add: cat_A_def truthy_def elems_def example_trace_def)
  moreover have "step xlsx remote_ok ?c2 example_config"
    using acquire [of ?c2 "[]" cat_B "ustr ''B''" "[]" xlsx remote_ok]
    by (simp add: example_config_def example_trace_def)
  ultimately show ?thesis by simp
qed

lemma example_run: "walk_run xlsx remote_ok [cat_A, cat_B] example_trace None"
proof -
  let ?c4 = "\<lparr>ready = [], waiting = [], inflight = [(cat_B, ustr ''B'')],
    permits = 29, trace = take 5 example_trace, raised = None\<rparr>"
  let ?c5 = "\<lparr>ready = [], waiting = [], inflight = [],
    permits = 30, trace = example_trace, raised = None\<rparr>"
  have "step xlsx remote_ok example_config ?c4"
    using start_leaf [of example_config "[]" cat_A1 2 "Some 1" "ustr ''A''" "[]" xlsx remote_ok]
      xlsx_nodes
    by (simp add: example_config_def cat_A1_def truthy_def example_trace_def)
  moreover have "step xlsx remote_ok ?c4 ?c5"
    using respond [of ?c4 "[]" cat_B "ustr ''B''" "[]" xlsx remote_ok]
    by (simp add: remote_ok_facets xlsx_facets example_trace_def)
  ultimately have "(step xlsx remote_ok)\<^sup>*\<^sup>* (init [cat_A, cat_B]) ?c5"
    using example_config_reached by simp
  moreover have "final ?c5" by (simp add: final_def)
  ultimately have "walk_run xlsx remote_ok [cat_A, cat_B] (trace ?c5) (raised ?c5)"
    by (rule walk_run.intros)
  then show ?thesis by simp
qed




lemma slash_run: "walk_run xlsx remote_ok [cat_S] [] (Some ValueError)"
proof -
  have "process_all xlsx remote_ok [cat_S] = ([], Some ValueError)"
    by (simp add: process_all_def gather_def cat_S_def [THEN arg_cong, of cat_name]
        recurse_raise [where wr = xlsx, OF xlsx_slash])
  with walk_run_process_all [of xlsx remote_ok "[cat_S]"] show ?thesis by simp
qed

text \<open>
  The whole run on a menu that is the root \<open>A/B\<close> alone: the exception leaves
  \<open>scrape\<close>, and the workbook is not saved.
\<close>

lemma slash_scrape: "scrape xlsx remote_ok (Inr [cat_S]) [Get MAIN_MENU_URL] (Some ValueError)"
proof -
  have menu: "fetch_main_menu (Inr [cat_S]) = ([Get MAIN_MENU_URL], Some [cat_S])"
    by (simp add: fetch_main_menu_def safe_api_call_def)
  then have "truthy (snd (fetch_main_menu (Inr [cat_S])))" by (simp add: truthy_def)
  moreover from menu slash_run
  have "walk_run xlsx remote_ok (elems (snd (fetch_main_menu (Inr [cat_S])))) [] (Some ValueError)"
    by (simp add: elems_def)
  ultimately have "scrape xlsx remote_ok (Inr [cat_S])
      (fst (fetch_main_menu (Inr [cat_S])) @ []) (Some ValueError)"
    by (rule catalog_raise)
  with menu show ?thesis by simp
qed

lemma example_paths:
  "forest_paths [cat_A, cat_B] = [[cat_A], [cat_A, cat_A1], [cat_B]]"
  by (simp add: forest_paths_def paths.simps cat_A_def cat_A1_def cat_B_def elems_def)

lemma slash_paths: "forest_paths [cat_S] = [[cat_S], [cat_S, cat_A1]]"
  by (simp add: forest_paths_def paths.simps cat_S_def cat_A1_def elems_def)

lemma deep_paths: "forest_paths [cat_C] = [[cat_C], [cat_C, cat_C1], [cat_C, cat_C1, cat_C2]]"
  by (simp add: forest_paths_def paths.simps cat_C_def cat_C1_def cat_C2_def elems_def)

lemma process_all_eval:
  assumes "\<forall>pth\<in>set (forest_paths cats). wr (path_record pth) = None"
  shows "process_all wr R cats
     = (concat (map (\<lambda>pth. Write (path_record pth) # path_facets wr R pth) (forest_paths cats)),
        None)"
proof -
  from assms have "snd (process_all wr R cats) = None" by (simp add: process_all_snd)
  with process_all_fst [OF this] show ?thesis by (simp add: prod_eq_iff)
qed

lemma example_records:
  "path_record [cat_A] = node_record cat_A 1 None (ustr ''A'')"
  "path_record [cat_A, cat_A1] = node_record cat_A1 2 (Some 1) (ustr ''A'')"
  "path_record [cat_B] = node_record cat_B 1 None (ustr ''B'')"
  "path_record [cat_C] = node_record cat_C 1 None (ustr ''C'')"
  "path_record [cat_C, cat_C1] = node_record cat_C1 2 (Some 5) (ustr ''C'')"
  "path_record [cat_C, cat_C1, cat_C2] = node_record cat_C2 3 (Some 6) (ustr ''C'')"
  "path_record [cat_E] = node_record cat_E 1 None (ustr ''E'')"
  by (simp_all add: path_record_def node_record_def cat_A_def cat_B_def cat_C_def cat_C1_def
      cat_E_def)

lemma example_due:
  "\<not> fetch_due cat_A" "\<not> fetch_due cat_A1" "fetch_due cat_B" "\<not> fetch_due cat_C"
  "\<not> fetch_due cat_C1" "fetch_due cat_C2" "\<not> fetch_due cat_E"
  by (simp_all add: fetch_due_def truthy_def cat_A_def cat_A1_def cat_B_def cat_C_def
      cat_C1_def cat_C2_def cat_E_def)

lemma example_names:
  "cat_name cat_A = ustr ''A''" "cat_name cat_B = ustr ''B''" "cat_name cat_C = ustr ''C''"
  "cat_name cat_E = ustr ''E''" "cat_name cat_S = ustr ''A/B''"
  by (simp_all add: cat_A_def cat_B_def cat_C_def cat_E_def cat_S_def)

lemma example_facets:
  "path_facets wr R [cat_A] = []"
  "path_facets wr R [cat_A, cat_A1] = []"
  "path_facets wr R [cat_B] = fetch_items wr R cat_B (ustr ''B'')"
  "path_facets wr R [cat_C] = []"
  "path_facets wr R [cat_C, cat_C1] = []"
  "path_facets wr R [cat_C, cat_C1, cat_C2] = fetch_items wr R cat_C2 (ustr ''C'')"
  "path_facets wr R [cat_E] = []"
  by (simp_all add: path_facets_def example_due example_names)


lemma deep_sequential:
  "process_all xlsx remote_ok [cat_C] =
     ([Write (node_record cat_C 1 None (ustr ''C'')),
       Write (node_record cat_C1 2 (Some 5) (ustr ''C'')),
       Write (node_record cat_C2 3 (Some 6) (ustr ''C'')),
       Acquire,
       Get (FILTER_API (shard cat_C2) (query cat_C2)),
       Write (facet_record (ustr ''C'') 7 facet_F1),
       Release], None)"
  by (subst process_all_eval)
    (simp_all add: deep_paths example_records example_facets xlsx_nodes fetch_items_split
      remote_ok_facets xlsx_facets)


lemma partial_after_response:
  "wr (facet_record s (cat_id cat) facet_F1) = None \<Longrightarrow>
   after_response wr remote_partial cat s
     = ([Write (facet_record s (cat_id cat) facet_F1)], Inl AttributeError)"
  by (simp add: after_response_def remote_partial_def response_partial_def filters_response_def
      category_group_def py_get_def py_iter_def facet_F1_def facet_record_def field_def)

lemma list_id_after_response:
  "after_response xlsx remote_list_id cat (ustr ''B'') = ([], Inl ValueError)"
proof -
  have "xlsx \<lparr>sheet_name = ustr ''B'', item_id = JList [JInt 1], name = JStr (ustr ''x''),
      depth = 99, parent = Some (cat_id cat)\<rparr> = Some ValueError"
    using xlsx_list_id [of "cat_id cat"] by (simp add: facet_record_def field_def)
  then show ?thesis
    by (simp add: after_response_def remote_list_id_def response_list_id_def
        filters_response_def category_group_def py_get_def py_iter_def)
qed

lemma one_down_paths:
  "forest_paths [cat_B, cat_C] = [[cat_B], [cat_C], [cat_C, cat_C1], [cat_C, cat_C1, cat_C2]]"
  by (simp add: forest_paths_def paths.simps cat_B_def cat_C_def cat_C1_def cat_C2_def elems_def)

lemma one_down_responses:
  "remote_one_down (FILTER_API (shard cat_B) (query cat_B)) = Inl (Raised (ustr ''timeout''))"
  "remote_one_down (FILTER_API (shard cat_C2) (query cat_C2)) = Inr response_ok"
  by (simp_all add: remote_one_down_def cat_B_def cat_C2_def FILTER_API_def fmt_def)
    (simp add: ustr_def)

lemma one_down_facets:
  "fetch_items xlsx remote_one_down cat_B (ustr ''B'')
     = [Acquire, Get (FILTER_API (shard cat_B) (query cat_B)), Release,
        Print ''_fetch_items'' (Raised (ustr ''timeout''))]"
  "fetch_items xlsx remote_one_down cat_C2 (ustr ''C'')
     = [Acquire, Get (FILTER_API (shard cat_C2) (query cat_C2)),
        Write (facet_record (ustr ''C'') 7 facet_F1), Release]"
proof -
  have "fetch_items xlsx remote_one_down cat_C2 s = fetch_items xlsx remote_ok cat_C2 s" for s
    by (rule fetch_items_remote) (simp add: one_down_responses remote_ok_def)
  then show "fetch_items xlsx remote_one_down cat_C2 (ustr ''C'')
     = [Acquire, Get (FILTER_API (shard cat_C2) (query cat_C2)),
        Write (facet_record (ustr ''C'') 7 facet_F1), Release]"
    by (simp add: fetch_items_split remote_ok_facets xlsx_facets)
  show "fetch_items xlsx remote_one_down cat_B (ustr ''B'')
     = [Acquire, Get (FILTER_API (shard cat_B) (query cat_B)), Release,
        Print ''_fetch_items'' (Raised (ustr ''timeout''))]"
    by (simp add: fetch_items_events after_response_raised one_down_responses)
qed

lemma list_id_sequential:
  "process_all xlsx remote_list_id [cat_A, cat_B] =
     ([Write (node_record cat_A 1 None (ustr ''A'')),
       Write (node_record cat_A1 2 (Some 1) (ustr ''A'')),
       Write (node_record cat_B 1 None (ustr ''B'')),
       Acquire,
       Get (FILTER_API (shard cat_B) (query cat_B)),
       Release,
       Print ''_fetch_items'' ValueError], None)"
  by (subst process_all_eval)
    (simp_all add: example_paths example_records example_facets xlsx_nodes fetch_items_events
      list_id_after_response)

lemma one_down_sequential:
  "process_all xlsx remote_one_down [cat_B, cat_C] =
     ([Write (node_record cat_B 1 None (ustr ''B'')),
       Acquire,
       Get (FILTER_API (shard cat_B) (query cat_B)),
       Release,
       Print ''_fetch_items'' (Raised (ustr ''timeout'')),
       Write (node_record cat_C 1 None (ustr ''C'')),
       Write (node_record cat_C1 2 (Some 5) (ustr ''C'')),
       Write (node_record cat_C2 3 (Some 6) (ustr ''C'')),
       Acquire,
       Get (FILTER_API (shard cat_C2) (query cat_C2)),
       Write (facet_record (ustr ''C'') 7 facet_F1),
       Release], None)"
  by (subst process_all_eval)
    (simp_all add: one_down_paths example_records example_facets xlsx_nodes one_down_facets)

section \<open>Facts about the records and requests of a run\<close>

lemma records_process_all:
  "snd (process_all wr R cats) = None \<Longrightarrow>
   mset (records (fst (process_all wr R cats)))
     = image_mset path_record (mset (forest_paths cats))
       + (\<Sum>pth\<leftarrow>forest_paths cats. mset (records (path_facets wr R pth)))"
  by (simp add: process_all_fst records_concat_map mset_concat_Cons del: records_simps)
    (simp add: mset_concat_Cons)

lemma mset_records_mono:
  assumes "mset xs \<subseteq># mset ys"
  shows "mset (records xs) \<subseteq># mset (records ys)"
proof -
  from assms obtain m where "mset ys = mset xs + m" by (auto simp: subset_mset.le_iff_add)
  moreover obtain zs where "m = mset zs" using ex_mset [of m] by blast
  ultimately have "mset ys = mset (xs @ zs)" by simp
  then have "mset (records ys) = mset (records (xs @ zs))" by (rule mset_records_cong)
  then show ?thesis by (simp add: records_def)
qed

lemma mset_requests_mono:
  assumes "mset xs \<subseteq># mset ys"
  shows "mset (requests xs) \<subseteq># mset (requests ys)"
proof -
  from assms obtain m where "mset ys = mset xs + m" by (auto simp: subset_mset.le_iff_add)
  moreover obtain zs where "m = mset zs" using ex_mset [of m] by blast
  ultimately have "mset ys = mset (xs @ zs)" by simp
  then have "mset (requests ys) = mset (requests (xs @ zs))" by (rule mset_requests_cong)
  then show ?thesis by (simp add: requests_def)
qed

lemma records_all_paths_sub:
  "mset (records (fst (process_all wr R cats)))
     \<subseteq># image_mset path_record (mset (forest_paths cats))
       + (\<Sum>pth\<leftarrow>forest_paths cats. mset (records (path_facets wr R pth)))"
proof -
  have "mset (records (fst (process_all wr R cats)))
     \<subseteq># mset (records (concat (map (\<lambda>pth. Write (path_record pth) # path_facets wr R pth)
       (forest_paths cats))))"
    using process_all_fst_sub by (rule mset_records_mono)
  then show ?thesis
    by (simp add: records_concat_map mset_concat_Cons del: records_simps)
      (simp add: mset_concat_Cons)
qed

lemma in_sum_list_mset:
  "x \<in># sum_list (map f xs) \<longleftrightarrow> (\<exists>y\<in>set xs. x \<in># f y)"
  by (induction xs) auto


section \<open>C1: completeness of the walk\<close>

text \<open>
  C1, as stated, fails: the root \<open>A/B\<close> has the child \<open>A1\<close>; the library refuses the
  title of the sheet, the write of the root's own row raises, and the walk ends with
  \<open>ValueError\<close> and no record at all, neither of the root nor of its child.
\<close>

theorem refused_row_ends_walk_counterexample:
  "forest_paths [cat_S] = [[cat_S], [cat_S, cat_A1]]
   \<and> xlsx (path_record [cat_S]) = Some ValueError
   \<and> walk_run xlsx remote_ok [cat_S] [] (Some ValueError)
   \<and> process_all xlsx remote_ok [cat_S] = ([], Some ValueError)
   \<and> records [] = []"
proof -
  have rec: "path_record [cat_S] = node_record cat_S 1 None (ustr ''A/B'')"
    by (simp add: path_record_def node_record_def cat_S_def)
  have "process_all xlsx remote_ok [cat_S] = ([], Some ValueError)"
    by (simp add: process_all_def gather_def example_names
        recurse_raise [where wr = xlsx, OF xlsx_slash])
  with slash_paths slash_run xlsx_slash rec show ?thesis by simp
qed

text \<open>
  C1, amended. A walk ends with an unhandled exception exactly when the sheet writer
  refuses the own row of some node of the forest. However the branches interleave, a walk
  that ends without one emits for every node of the forest exactly one record of its
  own: its records are, as a multiset, one \<open>path_record\<close> for each path from a root to a
  node, together with the facet records of the leaves. The depth of a node's record is
  one more than the number of its ancestors (1 for a root), its parent the id of the last
  ancestor (none for a root). A walk that ends with an exception emits no record but
  these, and none more often.
\<close>

theorem walk_emits_one_record_per_node:
  assumes "walk_run wr R categories tr ex"
  shows "(ex = None \<longleftrightarrow> (\<forall>pth\<in>set (forest_paths categories). wr (path_record pth) = None))
     \<and> (ex = None \<longrightarrow>
          mset (records tr)
            = image_mset path_record (mset (forest_paths categories))
              + (\<Sum>pth\<leftarrow>forest_paths categories. mset (records (path_facets wr R pth))))
     \<and> mset (records tr)
          \<subseteq># image_mset path_record (mset (forest_paths categories))
              + (\<Sum>pth\<leftarrow>forest_paths categories. mset (records (path_facets wr R pth)))"
proof -
  from assms have a: "ex = None \<longleftrightarrow> (\<forall>pth\<in>set (forest_paths categories). wr (path_record pth) = None)"
    by (simp add: walk_run_raised process_all_snd)
  have b: "mset (records tr)
            = image_mset path_record (mset (forest_paths categories))
              + (\<Sum>pth\<leftarrow>forest_paths categories. mset (records (path_facets wr R pth)))"
    if "ex = None"
  proof -
    from assms that have run: "walk_run wr R categories tr None" by simp
    then have "mset tr = mset (fst (process_all wr R categories))" by (rule walk_run_mset)
    then have "mset (records tr) = mset (records (fst (process_all wr R categories)))"
      by (rule mset_records_cong)
    moreover from walk_run_raised [OF run] have "snd (process_all wr R categories) = None"
      by simp
    ultimately show ?thesis by (simp add: records_process_all)
  qed
  from assms have "mset tr \<subseteq># mset (fst (process_all wr R categories))" by (rule walk_run_sub)
  then have "mset (records tr) \<subseteq># mset (records (fst (process_all wr R categories)))"
    by (rule mset_records_mono)
  then have c: "mset (records tr)
          \<subseteq># image_mset path_record (mset (forest_paths categories))
              + (\<Sum>pth\<leftarrow>forest_paths categories. mset (records (path_facets wr R pth)))"
    using records_all_paths_sub by (rule subset_mset.order_trans)
  from a b c show ?thesis by blast
qed

theorem walk_emits_one_record_per_node_witness:
  "walk_run xlsx remote_ok [cat_A, cat_B] example_trace None
   \<and> xlsx (path_record [cat_A]) = None \<and> xlsx (path_record [cat_A, cat_A1]) = None
   \<and> xlsx (path_record [cat_B]) = None
   \<and> mset (records example_trace)
     = {#\<lparr>sheet_name = ustr ''A'', item_id = JInt 1, name = JStr (ustr ''A''), depth = 1,
          parent = None\<rparr>,
        \<lparr>sheet_name = ustr ''A'', item_id = JInt 2, name = JStr (ustr ''A1''), depth = 2,
          parent = Some 1\<rparr>,
        \<lparr>sheet_name = ustr ''B'', item_id = JInt 3, name = JStr (ustr ''B''), depth = 1,
          parent = None\<rparr>#}
       + {#\<lparr>sheet_name = ustr ''B'', item_id = JInt 10, name = JStr (ustr ''F1''), depth = 99,
          parent = Some 3\<rparr>#}"
proof -
  have "image_mset path_record (mset (forest_paths [cat_A, cat_B]))
      + (\<Sum>pth\<leftarrow>forest_paths [cat_A, cat_B]. mset (records (path_facets xlsx remote_ok pth)))
    = {#\<lparr>sheet_name = ustr ''A'', item_id = JInt 1, name = JStr (ustr ''A''), depth = 1,
          parent = None\<rparr>,
        \<lparr>sheet_name = ustr ''A'', item_id = JInt 2, name = JStr (ustr ''A1''), depth = 2,
          parent = Some 1\<rparr>,
        \<lparr>sheet_name = ustr ''B'', item_id = JInt 3, name = JStr (ustr ''B''), depth = 1,
          parent = None\<rparr>#}
       + {#\<lparr>sheet_name = ustr ''B'', item_id = JInt 10, name = JStr (ustr ''F1''), depth = 99,
          parent = Some 3\<rparr>#}"
    by (simp only: example_paths)
      (simp add: example_facets fetch_items_split remote_ok_facets xlsx_facets,
       simp add: path_record_def cat_A_def cat_A1_def cat_B_def facet_record_def
        facet_F1_def field_def)
  with walk_emits_one_record_per_node [OF example_run] example_run show ?thesis
    by (simp add: example_paths)
qed


section \<open>C2: failure of a facet fetch\<close>

text \<open>
  C2, as stated, fails: when the items of the category group are \<open>F1\<close> and then the
  number 5, the fetch of \<open>B\<close> raises \<open>AttributeError\<close> at the second item, after the
  record of \<open>F1\<close> has been written. The fetch has failed and yet a facet record of the
  leaf is emitted.
\<close>

theorem failed_fetch_leaves_facets_counterexample:
  "fetch_due cat_B
   \<and> snd (after_response xlsx remote_partial cat_B (ustr ''B'')) = Inl AttributeError
   \<and> process_all xlsx remote_partial [cat_A, cat_B] =
       ([Write (node_record cat_A 1 None (ustr ''A'')),
         Write (node_record cat_A1 2 (Some 1) (ustr ''A'')),
         Write (node_record cat_B 1 None (ustr ''B'')),
         Acquire,
         Get (FILTER_API (shard cat_B) (query cat_B)),
         Write \<lparr>sheet_name = ustr ''B'', item_id = JInt 10, name = JStr (ustr ''F1''),
                depth = 99, parent = Some 3\<rparr>,
         Release,
         Print ''_fetch_items'' AttributeError], None)"
proof -
  have resp: "after_response xlsx remote_partial cat_B (ustr ''B'')
      = ([Write (facet_record (ustr ''B'') 3 facet_F1)], Inl AttributeError)"
    using partial_after_response [of xlsx "ustr ''B''" cat_B] by (simp add: xlsx_facets)
  have "process_all xlsx remote_partial [cat_A, cat_B] =
       ([Write (node_record cat_A 1 None (ustr ''A'')),
         Write (node_record cat_A1 2 (Some 1) (ustr ''A'')),
         Write (node_record cat_B 1 None (ustr ''B'')),
         Acquire,
         Get (FILTER_API (shard cat_B) (query cat_B)),
         Write (facet_record (ustr ''B'') 3 facet_F1),
         Release,
         Print ''_fetch_items'' AttributeError], None)"
    by (subst process_all_eval)
      (simp_all add: example_paths example_records example_facets xlsx_nodes fetch_items_events
        resp)
  then show ?thesis
    by (simp add: resp example_due) (simp add: facet_record_def facet_F1_def field_def)
qed

text \<open>
  C2, amended. If the facet fetch of a leaf raises, be it the request, the decoding of the
  response or the writing of a facet row, the exception is caught at that call: the
  semaphore is released and a diagnostic printed, and no exception leaves the fetch.
  Whether the walk ends with an unhandled exception depends on the own rows alone: it
  does exactly when the sheet writer refuses the own row of some node. When it does not,
  the run holds the own record of every node, that leaf included, and for every other
  leaf what its fetch adds, which depends on the remote only through the answer to that
  leaf's own request. Of the failing leaf's facet records, those written before the
  exception remain, an initial segment of the category items of the response; none when
  the request or the decoding of its response is what failed.
\<close>

theorem fetch_failure_isolated:
  assumes "walk_run wr R categories tr ex" and "pth \<in> set (forest_paths categories)"
    and "fetch_due (last pth)"
    and "snd (after_response wr R (last pth) (cat_name (hd pth))) = Inl e"
  shows "(ex = None \<longleftrightarrow> (\<forall>q\<in>set (forest_paths categories). wr (path_record q) = None))
     \<and> (ex = None \<longrightarrow>
          mset tr
            = image_mset (\<lambda>q. Write (path_record q)) (mset (forest_paths categories))
              + (\<Sum>q\<leftarrow>forest_paths categories. mset (path_facets wr R q)))
     \<and> path_facets wr R pth
       = Acquire # Get (FILTER_API (shard (last pth)) (query (last pth)))
         # fst (after_response wr R (last pth) (cat_name (hd pth)))
         @ [Release, Print ''_fetch_items'' e]
     \<and> prefix (fst (after_response wr R (last pth) (cat_name (hd pth))))
         (case R (FILTER_API (shard (last pth)) (query (last pth))) of
            Inl e' \<Rightarrow> []
          | Inr j \<Rightarrow>
              map (\<lambda>item. Write (facet_record (cat_name (hd pth)) (cat_id (last pth)) item))
                (category_items (response_groups j)))
     \<and> (R' (FILTER_API (shard (last q)) (query (last q)))
          = R (FILTER_API (shard (last q)) (query (last q))) \<longrightarrow>
        path_facets wr R' q = path_facets wr R q)"
proof -
  from assms(1) have a: "ex = None \<longleftrightarrow> (\<forall>q\<in>set (forest_paths categories). wr (path_record q) = None)"
    by (simp add: walk_run_raised process_all_snd)
  have a': "ex = None \<longrightarrow>
          mset tr
            = image_mset (\<lambda>q. Write (path_record q)) (mset (forest_paths categories))
              + (\<Sum>q\<leftarrow>forest_paths categories. mset (path_facets wr R q))"
  proof
    assume "ex = None"
    with assms(1) have run: "walk_run wr R categories tr None" by simp
    then have "mset tr = mset (fst (process_all wr R categories))" by (rule walk_run_mset)
    moreover from walk_run_raised [OF run] have "snd (process_all wr R categories) = None"
      by simp
    ultimately show "mset tr
            = image_mset (\<lambda>q. Write (path_record q)) (mset (forest_paths categories))
              + (\<Sum>q\<leftarrow>forest_paths categories. mset (path_facets wr R q))"
      by (simp add: process_all_fst mset_concat_Cons)
  qed
  from assms(3,4) have b: "path_facets wr R pth
       = Acquire # Get (FILTER_API (shard (last pth)) (query (last pth)))
         # fst (after_response wr R (last pth) (cat_name (hd pth)))
         @ [Release, Print ''_fetch_items'' e]"
    by (simp add: path_facets_def fetch_items_events)
  have c: "prefix (fst (after_response wr R (last pth) (cat_name (hd pth))))
         (case R (FILTER_API (shard (last pth)) (query (last pth))) of
            Inl e' \<Rightarrow> []
          | Inr j \<Rightarrow>
              map (\<lambda>item. Write (facet_record (cat_name (hd pth)) (cat_id (last pth)) item))
                (category_items (response_groups j)))"
    by (rule after_response_prefix)
  have d: "R' (FILTER_API (shard (last q)) (query (last q)))
          = R (FILTER_API (shard (last q)) (query (last q))) \<longrightarrow>
        path_facets wr R' q = path_facets wr R q"
  proof
    assume "R' (FILTER_API (shard (last q)) (query (last q)))
          = R (FILTER_API (shard (last q)) (query (last q)))"
    then have "fetch_items wr R' (last q) (cat_name (hd q))
        = fetch_items wr R (last q) (cat_name (hd q))"
      by (rule fetch_items_remote)
    then show "path_facets wr R' q = path_facets wr R q"
      by (simp only: path_facets_def)
  qed
  show ?thesis by (intro conjI) (fact a, fact a', fact b, fact c, fact d)
qed

theorem fetch_failure_isolated_witness:
  "walk_run xlsx remote_one_down [cat_B, cat_C]
     (fst (process_all xlsx remote_one_down [cat_B, cat_C])) None
   \<and> [cat_B] \<in> set (forest_paths [cat_B, cat_C])
   \<and> fetch_due (last [cat_B])
   \<and> snd (after_response xlsx remote_one_down (last [cat_B]) (cat_name (hd [cat_B])))
       = Inl (Raised (ustr ''timeout''))
   \<and> mset (fst (process_all xlsx remote_one_down [cat_B, cat_C]))
       = {#Write (path_record [cat_B]), Write (path_record [cat_C]),
           Write (path_record [cat_C, cat_C1]), Write (path_record [cat_C, cat_C1, cat_C2])#}
         + {#Acquire, Get (FILTER_API (shard cat_B) (query cat_B)), Release,
             Print ''_fetch_items'' (Raised (ustr ''timeout'')),
             Acquire, Get (FILTER_API (shard cat_C2) (query cat_C2)),
             Write (facet_record (ustr ''C'') 7 facet_F1), Release#}
   \<and> fst (after_response xlsx remote_one_down cat_B (ustr ''B'')) = []
   \<and> walk_run xlsx remote_list_id [cat_A, cat_B]
       (fst (process_all xlsx remote_list_id [cat_A, cat_B])) None
   \<and> [cat_B] \<in> set (forest_paths [cat_A, cat_B])
   \<and> snd (after_response xlsx remote_list_id (last [cat_B]) (cat_name (hd [cat_B])))
       = Inl ValueError
   \<and> path_facets xlsx remote_list_id [cat_B]
       = [Acquire, Get (FILTER_API (shard cat_B) (query cat_B)), Release,
          Print ''_fetch_items'' ValueError]"
proof -
  have run: "walk_run xlsx remote_one_down [cat_B, cat_C]
      (fst (process_all xlsx remote_one_down [cat_B, cat_C])) None"
    using walk_run_process_all [of xlsx remote_one_down "[cat_B, cat_C]"]
    by (simp add: one_down_sequential)
  have pth: "[cat_B] \<in> set (forest_paths [cat_B, cat_C])" by (simp add: one_down_paths)
  have due: "fetch_due (last [cat_B])" by (simp add: example_due)
  have resp: "after_response xlsx remote_one_down cat_B (ustr ''B'')
      = ([], Inl (Raised (ustr ''timeout'')))"
    by (simp add: after_response_raised one_down_responses)
  have fail: "snd (after_response xlsx remote_one_down (last [cat_B]) (cat_name (hd [cat_B])))
       = Inl (Raised (ustr ''timeout''))"
    by (simp add: resp example_names)
  have run': "walk_run xlsx remote_list_id [cat_A, cat_B]
      (fst (process_all xlsx remote_list_id [cat_A, cat_B])) None"
    using walk_run_process_all [of xlsx remote_list_id "[cat_A, cat_B]"]
    by (simp add: list_id_sequential)
  have pth': "[cat_B] \<in> set (forest_paths [cat_A, cat_B])" by (simp add: example_paths)
  have fail': "snd (after_response xlsx remote_list_id (last [cat_B]) (cat_name (hd [cat_B])))
       = Inl ValueError"
    by (simp add: list_id_after_response example_names)
  have one: "mset (fst (process_all xlsx remote_one_down [cat_B, cat_C]))
       = {#Write (path_record [cat_B]), Write (path_record [cat_C]),
           Write (path_record [cat_C, cat_C1]), Write (path_record [cat_C, cat_C1, cat_C2])#}
         + {#Acquire, Get (FILTER_API (shard cat_B) (query cat_B)), Release,
             Print ''_fetch_items'' (Raised (ustr ''timeout'')),
             Acquire, Get (FILTER_API (shard cat_C2) (query cat_C2)),
             Write (facet_record (ustr ''C'') 7 facet_F1), Release#}"
    using fetch_failure_isolated [OF run pth due fail, of remote_ok "[cat_C, cat_C1, cat_C2]"]
    by (simp only: one_down_paths) (simp add: example_facets one_down_facets)
  have two: "path_facets xlsx remote_list_id [cat_B]
       = [Acquire, Get (FILTER_API (shard cat_B) (query cat_B)), Release,
          Print ''_fetch_items'' ValueError]"
    using fetch_failure_isolated [OF run' pth' due fail', of remote_list_id "[cat_B]"]
    by (simp add: list_id_after_response example_names)
  from run pth due fail one resp run' pth' fail' two show ?thesis by simp
qed


section \<open>C3: the concurrency bound\<close>




section \<open>C4: the facets of a leaf\<close>




section \<open>C5: grouping\<close>

text \<open>
  C5. Every record a run emits belongs to a node of the forest, as that node's own record
  or as one of its facets, and its sheet group is the name of the root of the path to
  that node: the name of the top-level ancestor, whatever lies in between.
\<close>

theorem sheet_group_is_root_name:
  assumes "walk_run wr R categories tr ex" and "w \<in> set (records tr)"
  shows "\<exists>pth\<in>set (forest_paths categories).
           hd pth \<in> set categories \<and> sheet_name w = cat_name (hd pth)
           \<and> (w = path_record pth \<or> w \<in> set (records (path_facets wr R pth)))"
proof -
  from assms(1) have "mset tr \<subseteq># mset (fst (process_all wr R categories))"
    by (rule walk_run_sub)
  then have "mset (records tr) \<subseteq># mset (records (fst (process_all wr R categories)))"
    by (rule mset_records_mono)
  then have "mset (records tr)
      \<subseteq># image_mset path_record (mset (forest_paths categories))
        + (\<Sum>pth\<leftarrow>forest_paths categories. mset (records (path_facets wr R pth)))"
    using records_all_paths_sub by (rule subset_mset.order_trans)
  moreover from assms(2) have "w \<in># mset (records tr)" by simp
  ultimately have "w \<in># image_mset path_record (mset (forest_paths categories))
        + (\<Sum>pth\<leftarrow>forest_paths categories. mset (records (path_facets wr R pth)))"
    by (rule mset_subset_eqD)
  then obtain pth where pth: "pth \<in> set (forest_paths categories)"
    and w: "w = path_record pth \<or> w \<in> set (records (path_facets wr R pth))"
    by (auto simp: in_sum_list_mset)
  from w have "sheet_name w = cat_name (hd pth)"
  proof
    assume "w = path_record pth"
    then show ?thesis by (simp add: path_record_def)
  next
    assume "w \<in> set (records (path_facets wr R pth))"
    then show ?thesis
      by (auto simp: path_facets_def dest: fetch_items_records_sheet split: if_splits)
  qed
  with pth w forest_paths_hd [OF pth] show ?thesis by blast
qed

theorem sheet_group_is_root_name_witness:
  "walk_run xlsx remote_ok [cat_C] (fst (process_all xlsx remote_ok [cat_C])) None
   \<and> facet_record (ustr ''C'') 7 facet_F1
       \<in> set (records (fst (process_all xlsx remote_ok [cat_C])))
   \<and> (\<exists>pth\<in>set (forest_paths [cat_C]).
         hd pth \<in> set [cat_C]
         \<and> sheet_name (facet_record (ustr ''C'') 7 facet_F1) = cat_name (hd pth)
         \<and> (facet_record (ustr ''C'') 7 facet_F1 = path_record pth
            \<or> facet_record (ustr ''C'') 7 facet_F1
                \<in> set (records (path_facets xlsx remote_ok pth))))"
proof -
  have run: "walk_run xlsx remote_ok [cat_C] (fst (process_all xlsx remote_ok [cat_C])) None"
    using walk_run_process_all [of xlsx remote_ok "[cat_C]"] by (simp add: deep_sequential)
  have mem: "facet_record (ustr ''C'') 7 facet_F1
      \<in> set (records (fst (process_all xlsx remote_ok [cat_C])))"
    by (simp add: deep_sequential)
  from sheet_group_is_root_name [OF run mem] run mem show ?thesis by simp
qed


section \<open>C6: dispatch per node\<close>

text \<open>
  C6, as stated, fails: the leaf \<open>E\<close> has both shard and query present, the shard being
  the empty string, and no facet fetch is made for it.
\<close>

theorem dispatch_on_presence_counterexample:
  "shard cat_E \<noteq> None \<and> query cat_E \<noteq> None \<and> \<not> truthy (childs cat_E)
   \<and> recurse xlsx remote_ok cat_E 1 None (ustr ''E'')
       = ([Write (node_record cat_E 1 None (ustr ''E''))], None)
   \<and> requests (fst (recurse xlsx remote_ok cat_E 1 None (ustr ''E''))) = []"
proof -
  have "\<not> truthy (childs cat_E)" "\<not> (truthy (shard cat_E) \<and> truthy (query cat_E))"
    by (simp_all add: cat_E_def truthy_def)
  with xlsx_nodes(8) have "recurse xlsx remote_ok cat_E 1 None (ustr ''E'')
       = ([Write (node_record cat_E 1 None (ustr ''E''))], None)"
    by (rule recurse_leaf)
  then show ?thesis by (simp add: cat_E_def truthy_def)
qed

text \<open>
  C6, amended. A node whose own row is written and that has a non-empty list of children
  recurses into every child with depth + 1, its own id as parent and the same sheet
  group, making no fetch of its own; otherwise, if shard and query are both present and
  non-empty, it makes a single facet fetch; otherwise it emits its own record and
  nothing else. A node whose own row the sheet writer refuses raises, and neither
  recurses nor fetches.
\<close>

theorem dispatch_per_node:
  "(wr (node_record cat d p s) = None \<longrightarrow>
      (truthy (childs cat) \<longrightarrow>
         recurse wr R cat d p s =
           (Write (node_record cat d p s)
            # concat (map (\<lambda>sub. fst (recurse wr R sub (d + 1) (Some (cat_id cat)) s))
                        (elems (childs cat))),
            first_raised (map (\<lambda>sub. snd (recurse wr R sub (d + 1) (Some (cat_id cat)) s))
                            (elems (childs cat)))))
      \<and> (\<not> truthy (childs cat) \<longrightarrow>
           (truthy (shard cat) \<and> truthy (query cat) \<longrightarrow>
              recurse wr R cat d p s
                = (Write (node_record cat d p s) # fetch_items wr R cat s, None)
              \<and> requests (fetch_items wr R cat s) = [FILTER_API (shard cat) (query cat)])
           \<and> (\<not> (truthy (shard cat) \<and> truthy (query cat)) \<longrightarrow>
                recurse wr R cat d p s = ([Write (node_record cat d p s)], None))))
   \<and> (wr (node_record cat d p s) = Some e \<longrightarrow> recurse wr R cat d p s = ([], Some e))"
  by (simp add: recurse_childs recurse_leaf recurse_fetch recurse_raise fetch_due_def
      fetch_items_split resume_fetch_items_counts emit_def gather_def comp_def)

theorem dispatch_per_node_witness:
  "xlsx (node_record cat_A 1 None (ustr ''A'')) = None \<and> truthy (childs cat_A)
   \<and> recurse xlsx remote_ok cat_A 1 None (ustr ''A'')
       = (Write (node_record cat_A 1 None (ustr ''A''))
          # fst (recurse xlsx remote_ok cat_A1 2 (Some 1) (ustr ''A'')),
          snd (recurse xlsx remote_ok cat_A1 2 (Some 1) (ustr ''A'')))
   \<and> xlsx (node_record cat_B 1 None (ustr ''B'')) = None
   \<and> \<not> truthy (childs cat_B) \<and> truthy (shard cat_B) \<and> truthy (query cat_B)
   \<and> recurse xlsx remote_ok cat_B 1 None (ustr ''B'')
       = (Write (node_record cat_B 1 None (ustr ''B''))
          # fetch_items xlsx remote_ok cat_B (ustr ''B''), None)
   \<and> requests (fetch_items xlsx remote_ok cat_B (ustr ''B''))
       = [FILTER_API (shard cat_B) (query cat_B)]
   \<and> xlsx (node_record cat_E 1 None (ustr ''E'')) = None
   \<and> \<not> truthy (childs cat_E) \<and> \<not> (truthy (shard cat_E) \<and> truthy (query cat_E))
   \<and> recurse xlsx remote_ok cat_E 1 None (ustr ''E'')
       = ([Write (node_record cat_E 1 None (ustr ''E''))], None)
   \<and> xlsx (node_record cat_S 1 None (ustr ''A/B'')) = Some ValueError
   \<and> recurse xlsx remote_ok cat_S 1 None (ustr ''A/B'') = ([], Some ValueError)"
proof -
  have A: "truthy (childs cat_A)" "elems (childs cat_A) = [cat_A1]"
    by (simp_all add: cat_A_def truthy_def elems_def)
  have B: "\<not> truthy (childs cat_B)" "truthy (shard cat_B)" "truthy (query cat_B)"
    by (simp_all add: cat_B_def truthy_def)
  have E: "\<not> truthy (childs cat_E)" "\<not> (truthy (shard cat_E) \<and> truthy (query cat_E))"
    by (simp_all add: cat_E_def truthy_def)
  from dispatch_per_node [of xlsx cat_A 1 None "ustr ''A''" remote_ok]
    dispatch_per_node [of xlsx cat_B 1 None "ustr ''B''" remote_ok]
    dispatch_per_node [of xlsx cat_E 1 None "ustr ''E''" remote_ok]
    dispatch_per_node [of xlsx cat_S 1 None "ustr ''A/B''" remote_ok ValueError]
    A B E xlsx_nodes(1,3,8) xlsx_slash
  show ?thesis by simp
qed


section \<open>C7: failure of the root fetch\<close>

text \<open>
  C7. If the root fetch fails, the run is the request, the diagnostic of
  \<open>safe_api_call\<close>, the saving of the workbook and the closing of the client, and
  nothing else: no record is written, no exception leaves the run, and the sink is still
  finalized.
\<close>

theorem root_failure_still_saves:
  "(scrape wr R (Inl e) tr ex \<longleftrightarrow>
      tr = [Get MAIN_MENU_URL, Print ''_fetch_main_menu'' e, Save, AClose] \<and> ex = None)
   \<and> (scrape wr R (Inl e) tr ex \<longrightarrow> records tr = [] \<and> Save \<in> set tr)"
proof -
  have iff: "scrape wr R (Inl e) tr ex \<longleftrightarrow>
      tr = [Get MAIN_MENU_URL, Print ''_fetch_main_menu'' e, Save, AClose] \<and> ex = None"
  proof
    assume "scrape wr R (Inl e) tr ex"
    then show "tr = [Get MAIN_MENU_URL, Print ''_fetch_main_menu'' e, Save, AClose] \<and> ex = None"
      by cases (simp_all add: fetch_main_menu_raised truthy_def)
  next
    have "\<not> truthy (snd (fetch_main_menu (Inl e)))"
      by (simp add: fetch_main_menu_raised truthy_def)
    then have "scrape wr R (Inl e) (fst (fetch_main_menu (Inl e)) @ [Save, AClose]) None"
      by (rule no_catalog)
    moreover assume "tr = [Get MAIN_MENU_URL, Print ''_fetch_main_menu'' e, Save, AClose] \<and> ex = None"
    ultimately show "scrape wr R (Inl e) tr ex" by (simp add: fetch_main_menu_raised)
  qed
  then show ?thesis by (auto simp: records_def)
qed

theorem root_failure_still_saves_witness:
  "scrape xlsx remote_ok (Inl (Raised (ustr ''timeout'')))
     [Get MAIN_MENU_URL, Print ''_fetch_main_menu'' (Raised (ustr ''timeout'')), Save, AClose]
     None
   \<and> records [Get MAIN_MENU_URL, Print ''_fetch_main_menu'' (Raised (ustr ''timeout'')), Save,
        AClose] = []
   \<and> Save \<in> set [Get MAIN_MENU_URL, Print ''_fetch_main_menu'' (Raised (ustr ''timeout'')),
        Save, AClose]"
  using root_failure_still_saves [of xlsx remote_ok "Raised (ustr ''timeout'')"
      "[Get MAIN_MENU_URL, Print ''_fetch_main_menu'' (Raised (ustr ''timeout'')), Save, AClose]"
      None]
  by simp


section \<open>C8: determinism of the record set\<close>





section \<open>C9: responses without category items\<close>

text \<open>
  C9. When the response is an object without a \<open>data\<close> key, or its data has no
  \<open>filters\<close> key, or no group carries the category label, or the labelled groups have
  items that are no list, the fetch writes no record and ends without an exception: it
  acquires, requests and releases, and prints no diagnostic.
\<close>

theorem malformed_groups_yield_nothing:
  assumes "R (FILTER_API (shard cat) (query cat)) = Inr j" and "no_category_items j"
  shows "after_response wr R cat s = ([], Inr ())
     \<and> fetch_items wr R cat s = [Acquire, Get (FILTER_API (shard cat) (query cat)), Release]"
proof -
  from no_category_items_shape [OF assms(2)] assms(1)
    after_response_ok [where R = R and cat = cat and j = j and s = s and wr = wr]
  have "after_response wr R cat s = ([], Inr ())" by simp
  then show ?thesis by (simp add: fetch_items_events)
qed

theorem malformed_groups_yield_nothing_witness:
  "no_category_items (JObj [])
   \<and> fetch_items xlsx (remote_of (JObj [])) cat_B (ustr ''B'')
       = [Acquire, Get (FILTER_API (shard cat_B) (query cat_B)), Release]
   \<and> no_category_items (JObj [(ustr ''data'', JObj [])])
   \<and> fetch_items xlsx (remote_of (JObj [(ustr ''data'', JObj [])])) cat_B (ustr ''B'')
       = [Acquire, Get (FILTER_API (shard cat_B) (query cat_B)), Release]
   \<and> no_category_items
       (filters_response
          [JObj [(ustr ''name'', JStr (ustr ''Brand'')), (ustr ''items'', JList [facet_F1])]])
   \<and> fetch_items xlsx
        (remote_of (filters_response
          [JObj [(ustr ''name'', JStr (ustr ''Brand'')), (ustr ''items'', JList [facet_F1])]]))
        cat_B (ustr ''B'')
       = [Acquire, Get (FILTER_API (shard cat_B) (query cat_B)), Release]
   \<and> no_category_items (filters_response [category_group JNull])
   \<and> fetch_items xlsx (remote_of (filters_response [category_group JNull])) cat_B (ustr ''B'')
       = [Acquire, Get (FILTER_API (shard cat_B) (query cat_B)), Release]"
proof -
  have 1: "no_category_items (JObj [])"
    by (simp add: no_category_items_def)
  have 2: "no_category_items (JObj [(ustr ''data'', JObj [])])"
    by (simp add: no_category_items_def)
  have 3: "no_category_items
       (filters_response
          [JObj [(ustr ''name'', JStr (ustr ''Brand'')), (ustr ''items'', JList [facet_F1])]])"
    by (simp add: no_category_items_def filters_response_def is_obj_def labelled_def field_def
        category_label_def) (simp add: ustr_def)
  have 4: "no_category_items (filters_response [category_group JNull])"
    by (simp add: no_category_items_def filters_response_def category_group_def is_obj_def
        labelled_def field_def)
  have r: "remote_of j u = Inr j" for j u by (simp add: remote_of_def)
  note inst = malformed_groups_yield_nothing [where cat = cat_B and s = "ustr ''B''"
      and wr = xlsx]
  from inst [where R = "remote_of (JObj [])" and j = "JObj []"]
    inst [where R = "remote_of (JObj [(ustr ''data'', JObj [])])"
      and j = "JObj [(ustr ''data'', JObj [])]"]
    inst [where R = "remote_of (filters_response
          [JObj [(ustr ''name'', JStr (ustr ''Brand'')), (ustr ''items'', JList [facet_F1])]])"
      and j = "filters_response
          [JObj [(ustr ''name'', JStr (ustr ''Brand'')), (ustr ''items'', JList [facet_F1])]]"]
    inst [where R = "remote_of (filters_response [category_group JNull])"
      and j = "filters_response [category_group JNull]"]
    1 2 3 4
  show ?thesis by (simp add: r)
qed


section \<open>C10: leaves and their lookup parameters\<close>

text \<open>
  C10. Every request of a run is the request of a childless node whose shard and query
  are both non-empty strings, one at most for each such node, and one for each when the
  walk ends without an unhandled exception; a childless node whose shard or query is the
  empty string makes no request, and emits its own record, once the sheet writer has
  taken it, and nothing further.
\<close>

theorem fetch_needs_nonempty_shard_and_query:
  assumes "walk_run wr R categories tr ex"
  shows "mset (requests tr)
       \<subseteq># image_mset (\<lambda>pth. FILTER_API (shard (last pth)) (query (last pth)))
           (filter_mset
              (\<lambda>pth. \<not> truthy (childs (last pth))
                 \<and> (\<exists>sh q. shard (last pth) = Some sh \<and> sh \<noteq> []
                           \<and> query (last pth) = Some q \<and> q \<noteq> []))
              (mset (forest_paths categories)))
     \<and> (ex = None \<longrightarrow>
          mset (requests tr)
            = image_mset (\<lambda>pth. FILTER_API (shard (last pth)) (query (last pth)))
                (filter_mset
                   (\<lambda>pth. \<not> truthy (childs (last pth))
                      \<and> (\<exists>sh q. shard (last pth) = Some sh \<and> sh \<noteq> []
                                \<and> query (last pth) = Some q \<and> q \<noteq> []))
                   (mset (forest_paths categories))))
     \<and> (\<not> truthy (childs cat) \<and> (shard cat = Some [] \<or> query cat = Some []) \<longrightarrow>
          requests (fst (recurse wr R cat d p s)) = []
          \<and> (wr (node_record cat d p s) = None \<longrightarrow>
               recurse wr R cat d p s = ([Write (node_record cat d p s)], None)))"
proof -
  let ?all = "concat (map (\<lambda>pth. Write (path_record pth) # path_facets wr R pth)
      (forest_paths categories))"
  have due: "fetch_due c \<longleftrightarrow> \<not> truthy (childs c)
      \<and> (\<exists>sh q. shard c = Some sh \<and> sh \<noteq> [] \<and> query c = Some q \<and> q \<noteq> [])" for c
    by (auto simp: fetch_due_def truthy_def split: option.splits)
  have one: "requests (Write (path_record pth) # path_facets wr R pth)
      = (if fetch_due (last pth) then [FILTER_API (shard (last pth)) (query (last pth))] else [])"
    for pth
    by (simp add: path_facets_def fetch_items_split resume_fetch_items_counts)
  have sum: "mset (concat (map (\<lambda>x. if P x then [f x] else []) xs))
      = image_mset f (filter_mset P (mset xs))" for P f and xs :: "category list list"
    by (induction xs) simp_all
  have "requests ?all
      = concat (map (\<lambda>pth. if fetch_due (last pth)
          then [FILTER_API (shard (last pth)) (query (last pth))] else []) (forest_paths categories))"
    by (simp add: requests_concat_map one del: requests_simps)
  then have all: "mset (requests ?all)
       = image_mset (\<lambda>pth. FILTER_API (shard (last pth)) (query (last pth)))
           (filter_mset (\<lambda>pth. fetch_due (last pth)) (mset (forest_paths categories)))"
    by (simp only: sum)
  from assms have "mset tr \<subseteq># mset (fst (process_all wr R categories))" by (rule walk_run_sub)
  then have "mset tr \<subseteq># mset ?all"
    using process_all_fst_sub by (rule subset_mset.order_trans)
  then have "mset (requests tr) \<subseteq># mset (requests ?all)" by (rule mset_requests_mono)
  then have a: "mset (requests tr)
       \<subseteq># image_mset (\<lambda>pth. FILTER_API (shard (last pth)) (query (last pth)))
           (filter_mset (\<lambda>pth. fetch_due (last pth)) (mset (forest_paths categories)))"
    by (simp only: all)
  have b: "mset (requests tr)
       = image_mset (\<lambda>pth. FILTER_API (shard (last pth)) (query (last pth)))
           (filter_mset (\<lambda>pth. fetch_due (last pth)) (mset (forest_paths categories)))"
    if "ex = None"
  proof -
    from assms that have run: "walk_run wr R categories tr None" by simp
    then have "mset tr = mset (fst (process_all wr R categories))" by (rule walk_run_mset)
    moreover from walk_run_raised [OF run] have "snd (process_all wr R categories) = None"
      by simp
    ultimately have "mset tr = mset ?all" by (simp only: process_all_fst)
    then have "mset (requests tr) = mset (requests ?all)" by (rule mset_requests_cong)
    then show ?thesis by (simp only: all)
  qed
  have c: "requests (fst (recurse wr R cat d p s)) = []
      \<and> (wr (node_record cat d p s) = None \<longrightarrow>
           recurse wr R cat d p s = ([Write (node_record cat d p s)], None))"
    if "\<not> truthy (childs cat)" "shard cat = Some [] \<or> query cat = Some []"
  proof (cases "wr (node_record cat d p s)")
    case None
    from that have "\<not> (truthy (shard cat) \<and> truthy (query cat))" by (auto simp: truthy_def)
    with None that(1) have "recurse wr R cat d p s = ([Write (node_record cat d p s)], None)"
      by (rule recurse_leaf)
    then show ?thesis by simp
  next
    case (Some e)
    then show ?thesis by (simp add: recurse_raise)
  qed
  from a b c show ?thesis by (simp add: due)
qed

theorem fetch_needs_nonempty_shard_and_query_witness:
  "walk_run xlsx remote_ok [cat_E, cat_B] (fst (process_all xlsx remote_ok [cat_E, cat_B])) None
   \<and> mset (requests (fst (process_all xlsx remote_ok [cat_E, cat_B])))
       = {#FILTER_API (shard cat_B) (query cat_B)#}
   \<and> \<not> truthy (childs cat_E) \<and> shard cat_E = Some []
   \<and> xlsx (node_record cat_E 1 None (ustr ''E'')) = None
   \<and> recurse xlsx remote_ok cat_E 1 None (ustr ''E'')
       = ([Write (node_record cat_E 1 None (ustr ''E''))], None)"
proof -
  have pths: "forest_paths [cat_E, cat_B] = [[cat_E], [cat_B]]"
    by (simp add: forest_paths_def paths.simps cat_E_def cat_B_def elems_def)
  have "snd (process_all xlsx remote_ok [cat_E, cat_B]) = None"
    by (simp add: process_all_snd pths example_records xlsx_nodes)
  with walk_run_process_all [of xlsx remote_ok "[cat_E, cat_B]"]
  have run: "walk_run xlsx remote_ok [cat_E, cat_B]
      (fst (process_all xlsx remote_ok [cat_E, cat_B])) None"
    by simp
  have leaf: "\<not> truthy (childs cat_E)" "shard cat_E = Some []"
    by (simp_all add: cat_E_def truthy_def)
  from fetch_needs_nonempty_shard_and_query [OF run, of cat_E 1 None "ustr ''E''"] run leaf
    xlsx_nodes(8)
  show ?thesis
    by (simp only: pths) (simp add: cat_E_def cat_B_def truthy_def)
qed

end
